theory Spec2Isabelle
  imports Complex_Main "HOL-Library.AList"
begin

section \<open>Errors\<close>

text \<open>
  The exceptions the three modules can meet. \<open>ValueError\<close> is what the source raises
  for a disconnected graph (the spec's DisconnectedGraphError). The other four are raised
  by the libraries: \<open>NetworkXError\<close> by \<open>remove_edge\<close> on a missing edge,
  \<open>NetworkXPointlessConcept\<close> by \<open>is_connected\<close> on the graph without nodes,
  \<open>KeyError\<close> and \<open>IndexError\<close> by dictionary and array lookups. None of the four
  is a subclass of \<open>ValueError\<close>, so \<open>except ValueError\<close> lets them through.
\<close>

datatype error = ValueError | NetworkXError | NetworkXPointlessConcept | KeyError | IndexError

definition bind_err :: "error + 'a \<Rightarrow> ('a \<Rightarrow> error + 'b) \<Rightarrow> error + 'b" where
  "bind_err m f = (case m of Inl e \<Rightarrow> Inl e | Inr x \<Rightarrow> f x)"

section \<open>The graph object\<close>

text \<open>
  A \<open>networkx.Graph\<close> keeps a dictionary from each node to the dictionary of its
  neighbours, both in insertion order. The model is the association list of that
  dictionary: one entry per node, in node order, holding the neighbours in their order.
  Edges carry no attributes anywhere in the source.
\<close>

type_synonym 'n graph = "('n \<times> 'n list) list"

definition nodes :: "'n graph \<Rightarrow> 'n list" where
  "nodes g = map fst g"

definition adj :: "'n graph \<Rightarrow> 'n \<Rightarrow> 'n list" where
  "adj g u = (case map_of g u of Some ns \<Rightarrow> ns | None \<Rightarrow> [])"

definition has_edge :: "'n graph \<Rightarrow> 'n \<Rightarrow> 'n \<Rightarrow> bool" where
  "has_edge g u v \<longleftrightarrow> v \<in> set (adj g u)"

definition number_of_nodes :: "'n graph \<Rightarrow> nat" where
  "number_of_nodes g = length g"

text \<open>
  \<open>G.edges()\<close> walks the nodes in order and reports \<open>(n, nbr)\<close> for every neighbour
  \<open>nbr\<close> of \<open>n\<close> that is not a node already walked, so each undirected edge is
  reported once, from its endpoint that comes first.
\<close>

fun edges_from :: "'n list \<Rightarrow> 'n graph \<Rightarrow> ('n \<times> 'n) list" where
  "edges_from seen [] = []"
| "edges_from seen ((n, nbrs) # rest) =
     map (Pair n) (filter (\<lambda>v. v \<notin> set seen) nbrs) @ edges_from (n # seen) rest"

definition edges :: "'n graph \<Rightarrow> ('n \<times> 'n) list" where
  "edges g = edges_from [] g"

text \<open>\<open>G.number_of_edges()\<close> is the number of edges reported.\<close>

definition number_of_edges :: "'n graph \<Rightarrow> nat" where
  "number_of_edges g = length (edges g)"

text \<open>The degree of a node: the number of its neighbours, a self-loop counted twice.\<close>

definition degree :: "'n graph \<Rightarrow> 'n \<Rightarrow> nat" where
  "degree g n = length (adj g n) + (if n \<in> set (adj g n) then 1 else 0)"

definition upd_adj :: "'n \<Rightarrow> ('n list \<Rightarrow> 'n list) \<Rightarrow> 'n graph \<Rightarrow> 'n graph" where
  "upd_adj u f g = map (\<lambda>(k, ns). if k = u then (k, f ns) else (k, ns)) g"

definition add_node :: "'n \<Rightarrow> 'n graph \<Rightarrow> 'n graph" where
  "add_node n g = (if n \<in> set (nodes g) then g else g @ [(n, [])])"

definition add_nbr :: "'n \<Rightarrow> 'n list \<Rightarrow> 'n list" where
  "add_nbr v ns = (if v \<in> set ns then ns else ns @ [v])"

text \<open>
  \<open>G.add_edge(u, v)\<close>: both nodes are created when absent, then \<open>v\<close> is stored under
  \<open>u\<close> and \<open>u\<close> under \<open>v\<close>; storing a key a dictionary already holds keeps its place.
\<close>

definition add_edge :: "'n \<Rightarrow> 'n \<Rightarrow> 'n graph \<Rightarrow> 'n graph" where
  "add_edge u v g = upd_adj v (add_nbr u) (upd_adj u (add_nbr v) (add_node v (add_node u g)))"

text \<open>
  \<open>G.remove_edge(u, v)\<close>: deletes \<open>v\<close> under \<open>u\<close> and, unless \<open>u = v\<close>, \<open>u\<close> under
  \<open>v\<close>; a missing key is reported as \<open>NetworkXError\<close>.
\<close>

definition remove_edge :: "'n \<Rightarrow> 'n \<Rightarrow> 'n graph \<Rightarrow> error + 'n graph" where
  "remove_edge u v g =
     (if v \<notin> set (adj g u) then Inl NetworkXError
      else let g1 = upd_adj u (remove1 v) g in
        if u = v then Inr g1
        else if u \<notin> set (adj g1 v) then Inl NetworkXError
        else Inr (upd_adj v (remove1 u) g1))"

text \<open>
  \<open>G.copy()\<close> builds a new graph: first every node, in order, then every stored
  neighbour pair through \<open>add_edge\<close>. \<open>copy.deepcopy(G)\<close> duplicates the dictionaries
  as they are.
\<close>

definition copy :: "'n graph \<Rightarrow> 'n graph" where
  "copy g = fold (\<lambda>(u, v). add_edge u v) (concat (map (\<lambda>(u, ns). map (Pair u) ns) g))
              (fold add_node (nodes g) [])"

definition deepcopy :: "'n graph \<Rightarrow> 'n graph" where
  "deepcopy g = g"

text \<open>
  \<open>G.subgraph(S)\<close>: the view of the nodes in \<open>S\<close> and of the edges between them, here
  in the order of the graph. The source only reads it.
\<close>

definition subgraph :: "'n graph \<Rightarrow> 'n set \<Rightarrow> 'n graph" where
  "subgraph g S = map (\<lambda>(u, ns). (u, filter (\<lambda>v. v \<in> S) ns)) (filter (\<lambda>(u, ns). u \<in> S) g)"

subsection \<open>Connectivity\<close>

text \<open>
  The breadth-first search of \<open>networkx\<close> collects the nodes reachable from a source,
  level by level. A graph of \<open>n\<close> nodes needs at most \<open>n\<close> levels.
\<close>

fun bfs_levels :: "nat \<Rightarrow> 'n graph \<Rightarrow> 'n set \<Rightarrow> 'n set" where
  "bfs_levels 0 g S = S"
| "bfs_levels (Suc k) g S = bfs_levels k g (S \<union> (\<Union>u\<in>S. set (adj g u)))"

definition plain_bfs :: "'n graph \<Rightarrow> 'n \<Rightarrow> 'n set" where
  "plain_bfs g src = bfs_levels (length g) g {src}"

text \<open>
  \<open>nx.is_connected(G)\<close> raises \<open>NetworkXPointlessConcept\<close> on the graph without nodes
  and otherwise compares the number of nodes reached from the first node with \<open>len(G)\<close>.
\<close>

definition is_connected :: "'n graph \<Rightarrow> error + bool" where
  "is_connected g =
     (case g of [] \<Rightarrow> Inl NetworkXPointlessConcept
      | (n, nbrs) # rest \<Rightarrow> Inr (card (plain_bfs g n) = length g))"

fun components_from :: "'n graph \<Rightarrow> 'n list \<Rightarrow> 'n set \<Rightarrow> 'n set list" where
  "components_from g [] seen = []"
| "components_from g (v # vs) seen =
     (if v \<in> seen then components_from g vs seen
      else plain_bfs g v # components_from g vs (seen \<union> plain_bfs g v))"

definition connected_components :: "'n graph \<Rightarrow> 'n set list" where
  "connected_components g = components_from g (nodes g) {}"

text \<open>
  \<open>max(components, key=len)\<close>: the first component of the largest size; \<open>ValueError\<close>
  on an empty sequence.
\<close>

fun max_by_len :: "'n set list \<Rightarrow> error + 'n set" where
  "max_by_len [] = Inl ValueError"
| "max_by_len [c] = Inr c"
| "max_by_len (c # cs) =
     (case max_by_len cs of Inl e \<Rightarrow> Inl e
      | Inr m \<Rightarrow> Inr (if card c < card m then m else c))"

text \<open>
  The representation invariant of a \<open>networkx.Graph\<close>: dictionary keys are unique, every
  neighbour is a node, and \<open>v\<close> is stored under \<open>u\<close> exactly when \<open>u\<close> is stored
  under \<open>v\<close>.
\<close>

definition wf_graph :: "'n graph \<Rightarrow> bool" where
  "wf_graph g \<longleftrightarrow>
     distinct (map fst g) \<and>
     (\<forall>(u, ns) \<in> set g. distinct ns \<and> (\<forall>v \<in> set ns. v \<in> fst ` set g \<and> u \<in> set (adj g v)))"

text \<open>The same invariant, read through \<open>nodes\<close> and \<open>adj\<close>.\<close>

definition wf_alt :: "'n graph \<Rightarrow> bool" where
  "wf_alt g \<longleftrightarrow> distinct (nodes g) \<and> (\<forall>u. distinct (adj g u)) \<and>
     (\<forall>u v. v \<in> set (adj g u) \<longrightarrow> v \<in> set (nodes g) \<and> u \<in> set (adj g v))"

section \<open>The resistance metric (calculate_Rs.py)\<close>

text \<open>
  Python floats are read as real numbers. A square array is its side and its entries;
  reading outside it is an \<open>IndexError\<close>. \<open>numpy.linalg.pinv\<close> lies outside the
  repository: it is the parameter \<open>pinv\<close>, which gives the entries of the result for
  an \<open>n\<close> by \<open>n\<close> argument.
\<close>

record ndarray =
  shape :: nat
  item :: "nat \<Rightarrow> nat \<Rightarrow> real"

type_synonym pinv_fun = "nat \<Rightarrow> (nat \<Rightarrow> nat \<Rightarrow> real) \<Rightarrow> nat \<Rightarrow> nat \<Rightarrow> real"

definition getitem :: "ndarray \<Rightarrow> nat \<Rightarrow> nat \<Rightarrow> error + real" where
  "getitem M i j = (if i < shape M \<and> j < shape M then Inr (item M i j) else Inl IndexError)"

text \<open>\<open>nx.laplacian_matrix(G).toarray()\<close>: the row sums of the adjacency matrix on the
  diagonal, minus the adjacency matrix, rows and columns in node order.\<close>

definition laplacian_matrix :: "'n graph \<Rightarrow> ndarray" where
  "laplacian_matrix g =
     \<lparr>shape = length g,
      item = (\<lambda>i j. (if i = j then real (length (adj g (nodes g ! i))) else 0)
                     - (if nodes g ! j \<in> set (adj g (nodes g ! i)) then 1 else 0))\<rparr>"

definition np_linalg_pinv :: "pinv_fun \<Rightarrow> ndarray \<Rightarrow> ndarray" where
  "np_linalg_pinv pinv M = \<lparr>shape = shape M, item = pinv (shape M) (item M)\<rparr>"

definition calculate_laplacian_pseudoinverse :: "pinv_fun \<Rightarrow> 'n graph \<Rightarrow> error + ndarray" where
  "calculate_laplacian_pseudoinverse pinv g =
     bind_err (is_connected g) (\<lambda>conn.
       if \<not> conn then Inl ValueError
       else Inr (np_linalg_pinv pinv (laplacian_matrix g)))"

text \<open>A dictionary is the association list of its items in insertion order;
  \<open>AList.update\<close> stores a key as Python does: in place when present, at the end
  otherwise.\<close>

definition node_map :: "'n graph \<Rightarrow> ('n \<times> nat) list" where
  "node_map g = fold (\<lambda>(i, n). AList.update n i) (enumerate 0 (nodes g)) []"

definition lookup :: "('k \<times> 'v) list \<Rightarrow> 'k \<Rightarrow> error + 'v" where
  "lookup d k = (case map_of d k of None \<Rightarrow> Inl KeyError | Some v \<Rightarrow> Inr v)"

fun resistances_loop ::
  "ndarray \<Rightarrow> ('n \<times> nat) list \<Rightarrow> ('n \<times> 'n) list \<Rightarrow> (('n \<times> 'n) \<times> real) list
     \<Rightarrow> error + (('n \<times> 'n) \<times> real) list" where
  "resistances_loop L nm [] res = Inr res"
| "resistances_loop L nm ((u, v) # es) res =
     bind_err (lookup nm u) (\<lambda>i.
     bind_err (lookup nm v) (\<lambda>j.
     bind_err (getitem L i i) (\<lambda>a.
     bind_err (getitem L j j) (\<lambda>b.
     bind_err (getitem L i j) (\<lambda>c.
       resistances_loop L nm es (AList.update (u, v) (max 0 (a + b - 2 * c)) res))))))"

definition calculate_all_pairs_effective_resistance ::
  "pinv_fun \<Rightarrow> 'n graph \<Rightarrow> ndarray option \<Rightarrow> error + (('n \<times> 'n) \<times> real) list" where
  "calculate_all_pairs_effective_resistance pinv g L_plus =
     bind_err (case L_plus of None \<Rightarrow> calculate_laplacian_pseudoinverse pinv g
               | Some L \<Rightarrow> Inr L) (\<lambda>L.
       resistances_loop L (node_map g) (edges g) [])"

text \<open>\<open>dict(G.degree())\<close> and the mean degree \<open>sum(degrees.values()) / N\<close>.\<close>

definition degrees :: "'n graph \<Rightarrow> ('n \<times> nat) list" where
  "degrees g = fold (\<lambda>n. AList.update n (degree g n)) (nodes g) []"

definition d_bar :: "'n graph \<Rightarrow> real" where
  "d_bar g = real (sum_list (map snd (degrees g))) / real (number_of_nodes g)"

fun weights_loop ::
  "('n \<times> nat) list \<Rightarrow> real \<Rightarrow> real \<Rightarrow> ('n \<times> 'n) list \<Rightarrow> (('n \<times> 'n) \<times> real) list
     \<Rightarrow> error + (('n \<times> 'n) \<times> real) list" where
  "weights_loop ds db denominator [] weights = Inr weights"
| "weights_loop ds db denominator ((u, v) # es) weights =
     bind_err (lookup ds u) (\<lambda>du.
     bind_err (lookup ds v) (\<lambda>dv.
       let numerator = \<bar>real du - db\<bar> + \<bar>real dv - db\<bar>;
           w_uv = 1 - numerator / denominator
       in weights_loop ds db denominator es (AList.update (u, v) w_uv weights)))"

definition all_ones :: "('n \<times> 'n) list \<Rightarrow> (('n \<times> 'n) \<times> real) list" where
  "all_ones es = fold (\<lambda>edge. AList.update edge 1) es []"

definition calculate_structural_penalty_weights ::
  "'n graph \<Rightarrow> error + (('n \<times> 'n) \<times> real) list" where
  "calculate_structural_penalty_weights g =
     (let N = number_of_nodes g in
      if N = 0 \<or> number_of_edges g = 0 then Inr []
      else let ds = degrees g; db = real (sum_list (map snd ds)) / real N in
        if db = 0 then Inr (all_ones (edges g))
        else let denominator = 2 * real N * db in
          if denominator = 0 then Inr (all_ones (edges g))
          else weights_loop ds db denominator (edges g) [])"

text \<open>
  The summation loop of \<open>calculate_Rs\<close>. Beside the running sum it records, in order,
  every argument handed to \<open>np.log\<close>; the record is not a value of the program.
\<close>

fun Rs_loop ::
  "(('n \<times> 'n) \<times> real) list \<Rightarrow> (('n \<times> 'n) \<times> real) list \<Rightarrow> ('n \<times> 'n) list
     \<Rightarrow> real \<times> real list \<Rightarrow> real \<times> real list" where
  "Rs_loop ps ws [] acc = acc"
| "Rs_loop ps ws (edge # es) (Rs_value, logged) =
     (case (map_of ps edge, map_of ws edge) of
        (Some p_uv, Some w_uv) \<Rightarrow>
          if p_uv > 0
          then Rs_loop ps ws es (Rs_value + (p_uv * ln (1 / p_uv)) * w_uv, logged @ [1 / p_uv])
          else Rs_loop ps ws es (Rs_value, logged)
      | _ \<Rightarrow> Rs_loop ps ws es (Rs_value, logged))"

definition calculate_Rs_logged :: "pinv_fun \<Rightarrow> 'n graph \<Rightarrow> error + real \<times> real list" where
  "calculate_Rs_logged pinv g =
     bind_err (is_connected g) (\<lambda>conn.
       if \<not> conn then Inl ValueError
       else if number_of_edges g = 0 then Inr (0, [])
       else bind_err (calculate_all_pairs_effective_resistance pinv g None) (\<lambda>edge_resistances.
         let total_resistance = sum_list (map snd edge_resistances) in
         if total_resistance = 0 then Inr (0, [])
         else let edge_probabilities =
                    map (\<lambda>(edge, res). (edge, res / total_resistance)) edge_resistances in
           bind_err (calculate_structural_penalty_weights g) (\<lambda>structural_weights.
             Inr (Rs_loop edge_probabilities structural_weights (edges g) (0, [])))))"

definition calculate_Rs :: "pinv_fun \<Rightarrow> 'n graph \<Rightarrow> error + real" where
  "calculate_Rs pinv g = map_sum id fst (calculate_Rs_logged pinv g)"

subsection \<open>The metric as the specification words it\<close>

text \<open>
  The position of a node in the node order, the clamped resistance
  \<open>\<Omega>\<^sub>u\<^sub>v = L\<^sup>+\<^sub>u\<^sub>u + L\<^sup>+\<^sub>v\<^sub>v - 2 L\<^sup>+\<^sub>u\<^sub>v\<close>, the weight
  \<open>w\<^sub>u\<^sub>v = 1 - (|d\<^sub>u - d| + |d\<^sub>v - d|) / (2 N d)\<close> and the sum
  \<open>\<Sum> p ln (1/p) w\<close> with \<open>p = \<Omega> / T\<close>, a term with \<open>p = 0\<close> counted as 0.
  These follow the specification, not the code; the code is compared with them below.
\<close>

definition index_of :: "'a list \<Rightarrow> 'a \<Rightarrow> nat" where
  "index_of xs x = length (takeWhile (\<lambda>y. y \<noteq> x) xs)"

definition omega :: "ndarray \<Rightarrow> 'n graph \<Rightarrow> 'n \<times> 'n \<Rightarrow> real" where
  "omega L g = (\<lambda>(u, v).
     max 0 (item L (index_of (nodes g) u) (index_of (nodes g) u)
            + item L (index_of (nodes g) v) (index_of (nodes g) v)
            - 2 * item L (index_of (nodes g) u) (index_of (nodes g) v)))"

definition w_spec :: "'n graph \<Rightarrow> 'n \<times> 'n \<Rightarrow> real" where
  "w_spec g = (\<lambda>(u, v).
     1 - (\<bar>real (degree g u) - d_bar g\<bar> + \<bar>real (degree g v) - d_bar g\<bar>)
         / (2 * real (number_of_nodes g) * d_bar g))"

definition entropy_term :: "real \<Rightarrow> real \<Rightarrow> real" where
  "entropy_term p w = (if p = 0 then 0 else p * ln (1 / p) * w)"

definition rs_spec :: "pinv_fun \<Rightarrow> 'n graph \<Rightarrow> real" where
  "rs_spec pinv g =
     (if number_of_edges g = 0 then 0
      else let L = np_linalg_pinv pinv (laplacian_matrix g);
               T = (\<Sum>e\<leftarrow>edges g. omega L g e)
        in if T = 0 then 0
           else (\<Sum>e\<leftarrow>edges g. entropy_term (omega L g e / T) (w_spec g e)))"

section \<open>Graph objects in a store\<close>

text \<open>
  Both searches copy the caller's graph and then change the copy in place. To tell the
  two objects apart the graphs live in a store: an address is a position in the list of
  all graph objects, allocation appends, a method that changes a graph overwrites its
  position.
\<close>

type_synonym 'n heap = "'n graph list"

definition alloc :: "'n graph \<Rightarrow> 'n heap \<Rightarrow> nat \<times> 'n heap" where
  "alloc g h = (length h, h @ [g])"

section \<open>Greedy target search (clinical_analysis.py)\<close>

text \<open>The \<open>print\<close> calls of both searches, and the \<open>verbose\<close> flag that only
  guards them, are left out.\<close>

text \<open>\<open>max_delta_rs\<close> starts at \<open>-np.inf\<close>, below every number.\<close>

datatype float = NegInf | Fin real

definition float_gt :: "real \<Rightarrow> float \<Rightarrow> bool" where
  "float_gt x m = (case m of NegInf \<Rightarrow> True | Fin y \<Rightarrow> x > y)"

text \<open>Python's \<open>int(budget)\<close> drops the fraction, towards zero.\<close>

definition py_int :: "real \<Rightarrow> int" where
  "py_int x = (if 0 \<le> x then \<lfloor>x\<rfloor> else \<lceil>x\<rceil>)"

record 'n selection =
  best_edge_to_remove :: "('n \<times> 'n) option"
  max_delta_rs :: float
  next_rs :: real

text \<open>The graph a candidate is scored on: the graph left by the removal when it is
  connected, the view of its largest component otherwise.\<close>

definition largest_cc_graph :: "'n graph \<Rightarrow> error + 'n graph" where
  "largest_cc_graph temp_G =
     bind_err (is_connected temp_G) (\<lambda>conn.
       if \<not> conn
       then bind_err (max_by_len (connected_components temp_G)) (\<lambda>largest_cc_nodes.
              Inr (subgraph temp_G largest_cc_nodes))
       else Inr temp_G)"

definition consider_candidate ::
  "'n \<times> 'n \<Rightarrow> real \<Rightarrow> real \<Rightarrow> 'n selection \<Rightarrow> 'n selection" where
  "consider_candidate edge rs_after_removal initial_rs sel =
     (let delta_rs = rs_after_removal - initial_rs in
      if float_gt delta_rs (max_delta_rs sel)
      then \<lparr>best_edge_to_remove = Some edge, max_delta_rs = Fin delta_rs,
            next_rs = rs_after_removal\<rparr>
      else sel)"

text \<open>
  The inner loop over the candidate edges. Each round allocates \<open>temp_G\<close>, a copy of the
  working graph at address \<open>cur\<close>, and removes the candidate from it. A \<open>ValueError\<close>
  out of \<open>calculate_Rs\<close> skips the candidate; any other exception leaves the function.
\<close>

fun candidates_loop ::
  "pinv_fun \<Rightarrow> nat \<Rightarrow> real \<Rightarrow> ('n \<times> 'n) list \<Rightarrow> 'n selection \<Rightarrow> 'n heap
     \<Rightarrow> error + 'n selection \<times> 'n heap" where
  "candidates_loop pinv cur initial_rs [] sel h = Inr (sel, h)"
| "candidates_loop pinv cur initial_rs (edge # es) sel h =
     (case alloc (copy (h ! cur)) h of (temp_G, h1) \<Rightarrow>
      (case remove_edge (fst edge) (snd edge) (h1 ! temp_G) of
         Inl e \<Rightarrow> Inl e
       | Inr g' \<Rightarrow>
          (case largest_cc_graph (h1[temp_G := g'] ! temp_G) of
             Inl e \<Rightarrow> Inl e
           | Inr lcc \<Rightarrow>
              (case (if number_of_edges lcc = 0 then Inr 0 else calculate_Rs pinv lcc) of
                 Inl ValueError \<Rightarrow>
                   candidates_loop pinv cur initial_rs es sel (h1[temp_G := g'])
               | Inl e \<Rightarrow> Inl e
               | Inr rs_after_removal \<Rightarrow>
                   candidates_loop pinv cur initial_rs es
                     (consider_candidate edge rs_after_removal initial_rs sel)
                     (h1[temp_G := g'])))))"

text \<open>
  The state of the outer loop. \<open>graph_at_selection\<close> is not a variable of the program:
  it records the working graph each target was chosen from.
\<close>

record 'n greedy_state =
  heap :: "'n heap"
  initial_rs :: real
  best_targets :: "('n \<times> 'n) list"
  delta_rs_history :: "float list"
  graph_at_selection :: "'n graph list"

fun greedy_loop ::
  "pinv_fun \<Rightarrow> nat \<Rightarrow> nat \<Rightarrow> 'n greedy_state \<Rightarrow> error + 'n greedy_state" where
  "greedy_loop pinv cur 0 st = Inr st"
| "greedy_loop pinv cur (Suc k) st =
     (let candidate_edges = edges (heap st ! cur) in
      if candidate_edges = [] then Inr st
      else
       (case candidates_loop pinv cur (initial_rs st) candidate_edges
               \<lparr>best_edge_to_remove = None, max_delta_rs = NegInf, next_rs = initial_rs st\<rparr>
               (heap st) of
          Inl e \<Rightarrow> Inl e
        | Inr (sel, h) \<Rightarrow>
           (case best_edge_to_remove sel of
              None \<Rightarrow> Inr (st\<lparr>heap := h\<rparr>)
            | Some edge \<Rightarrow>
               (case remove_edge (fst edge) (snd edge) (h ! cur) of
                  Inl e \<Rightarrow> Inl e
                | Inr g' \<Rightarrow>
                   greedy_loop pinv cur k
                     (st\<lparr>heap := h[cur := g'],
                         initial_rs := next_rs sel,
                         best_targets := best_targets st @ [edge],
                         delta_rs_history := delta_rs_history st @ [max_delta_rs sel],
                         graph_at_selection := graph_at_selection st @ [h ! cur]\<rparr>)))))"

text \<open>What the call returns: the three results, the address of \<open>final_G\<close>, and the
  store the call leaves behind.\<close>

record 'n greedy_result =
  targets :: "('n \<times> 'n) list"
  deltas :: "float list"
  final_G :: nat
  final_heap :: "'n heap"
  chosen_from :: "'n graph list"

definition iterations_of :: "int \<Rightarrow> real option \<Rightarrow> nat" where
  "iterations_of num_targets budget =
     nat (case budget of None \<Rightarrow> num_targets | Some b \<Rightarrow> min num_targets (py_int b))"

definition find_optimal_targets_greedy ::
  "pinv_fun \<Rightarrow> 'n heap \<Rightarrow> nat \<Rightarrow> int \<Rightarrow> real option \<Rightarrow> error + 'n greedy_result" where
  "find_optimal_targets_greedy pinv h G num_targets budget =
     bind_err (is_connected (h ! G)) (\<lambda>conn.
       if \<not> conn then Inl ValueError
       else case alloc (copy (h ! G)) h of (current_G, h1) \<Rightarrow>
         (case calculate_Rs pinv (h1 ! current_G) of
            Inl ValueError \<Rightarrow>
              Inr \<lparr>targets = [], deltas = [], final_G = G, final_heap = h1, chosen_from = []\<rparr>
          | Inl e \<Rightarrow> Inl e
          | Inr rs0 \<Rightarrow>
              bind_err (greedy_loop pinv current_G (iterations_of num_targets budget)
                          \<lparr>heap = h1, initial_rs = rs0, best_targets = [],
                           delta_rs_history = [], graph_at_selection = []\<rparr>) (\<lambda>st.
                Inr \<lparr>targets = best_targets st, deltas = delta_rs_history st,
                     final_G = current_G, final_heap = heap st,
                     chosen_from = graph_at_selection st\<rparr>)))"

section \<open>The rewiring optimiser (rego_optimizer.py)\<close>

text \<open>
  The random source is a stream \<open>rnd\<close> of pairs of numbers; the state counts the draws
  taken. \<open>random.sample(range(n), 2)\<close> turns a pair into two different positions below
  \<open>n\<close>, every such pair being the image of some draw, and raises \<open>ValueError\<close> for
  \<open>n < 2\<close>.
\<close>

definition random_sample2 :: "nat \<Rightarrow> nat \<times> nat \<Rightarrow> error + nat \<times> nat" where
  "random_sample2 n r =
     (if n < 2 then Inl ValueError
      else let i = fst r mod n; k = snd r mod (n - 1) in Inr (i, if k < i then k else Suc k))"

definition list_get :: "'a list \<Rightarrow> nat \<Rightarrow> error + 'a" where
  "list_get xs i = (if i < length xs then Inr (xs ! i) else Inl IndexError)"

text \<open>The \<open>while attempts < 100\<close> loop with its \<open>else\<close>: \<open>None\<close> when no draw gave two
  edges on four different nodes.\<close>

fun find_swappable ::
  "(nat \<Rightarrow> nat \<times> nat) \<Rightarrow> ('n \<times> 'n) list \<Rightarrow> nat \<Rightarrow> nat \<Rightarrow> nat
     \<Rightarrow> error + (('n \<times> 'n) \<times> ('n \<times> 'n)) option \<times> nat" where
  "find_swappable rnd es n 0 d = Inr (None, d)"
| "find_swappable rnd es n (Suc remaining) d =
     (case random_sample2 n (rnd d) of
        Inl e \<Rightarrow> Inl e
      | Inr (edge1_idx, edge2_idx) \<Rightarrow>
         (case list_get es edge1_idx of
            Inl e \<Rightarrow> Inl e
          | Inr (u, v) \<Rightarrow>
             (case list_get es edge2_idx of
                Inl e \<Rightarrow> Inl e
              | Inr (x, y) \<Rightarrow>
                 if length (remdups [u, v, x, y]) = 4 then Inr (Some ((u, v), (x, y)), Suc d)
                 else find_swappable rnd es n remaining (Suc d))))"

definition apply_swap :: "'n \<Rightarrow> 'n \<Rightarrow> 'n \<Rightarrow> 'n \<Rightarrow> 'n graph \<Rightarrow> error + 'n graph" where
  "apply_swap u v x y g =
     bind_err (remove_edge u v g) (\<lambda>g1.
     bind_err (remove_edge x y g1) (\<lambda>g2.
       Inr (add_edge v x (add_edge u y g2))))"

definition revert_swap :: "'n \<Rightarrow> 'n \<Rightarrow> 'n \<Rightarrow> 'n \<Rightarrow> 'n graph \<Rightarrow> error + 'n graph" where
  "revert_swap u v x y g =
     bind_err (remove_edge u y g) (\<lambda>g1.
     bind_err (remove_edge v x g1) (\<lambda>g2.
       Inr (add_edge x y (add_edge u v g2))))"

record 'n rego_state =
  rheap :: "'n heap"
  current_rs :: real
  rs_history :: "real list"
  edges_list :: "('n \<times> 'n) list"
  n_edges :: nat
  accepted_swaps :: nat
  draws :: nat

text \<open>One round of the \<open>for\<close> loop, after its \<open>n_edges < 2\<close> test. \<open>G\<close> is the address
  of the working graph.\<close>

definition rego_iteration ::
  "pinv_fun \<Rightarrow> (nat \<Rightarrow> nat \<times> nat) \<Rightarrow> nat \<Rightarrow> 'n rego_state \<Rightarrow> error + 'n rego_state" where
  "rego_iteration pinv rnd G st =
     (case find_swappable rnd (edges_list st) (n_edges st) 100 (draws st) of
        Inl e \<Rightarrow> Inl e
      | Inr (None, d) \<Rightarrow> Inr (st\<lparr>draws := d\<rparr>)
      | Inr (Some ((u, v), (x, y)), d) \<Rightarrow>
         if has_edge (rheap st ! G) u y \<or> has_edge (rheap st ! G) v x
         then Inr (st\<lparr>draws := d\<rparr>)
         else
          bind_err (apply_swap u v x y (rheap st ! G)) (\<lambda>g1.
          bind_err (is_connected g1) (\<lambda>conn.
            if \<not> conn
            then bind_err (revert_swap u v x y g1) (\<lambda>g2.
                   Inr (st\<lparr>rheap := (rheap st)[G := g2], draws := d\<rparr>))
            else
             (case calculate_Rs pinv g1 of
                Inl ValueError \<Rightarrow>
                  bind_err (revert_swap u v x y g1) (\<lambda>g2.
                    Inr (st\<lparr>rheap := (rheap st)[G := g2], draws := d\<rparr>))
              | Inl e \<Rightarrow> Inl e
              | Inr new_rs \<Rightarrow>
                  if new_rs > current_rs st
                  then Inr (st\<lparr>rheap := (rheap st)[G := g1],
                               current_rs := new_rs,
                               rs_history := rs_history st @ [new_rs],
                               edges_list := edges g1,
                               n_edges := length (edges g1),
                               accepted_swaps := Suc (accepted_swaps st),
                               draws := d\<rparr>)
                  else bind_err (revert_swap u v x y g1) (\<lambda>g2.
                         Inr (st\<lparr>rheap := (rheap st)[G := g2], draws := d\<rparr>))))))"

fun rego_loop ::
  "pinv_fun \<Rightarrow> (nat \<Rightarrow> nat \<times> nat) \<Rightarrow> nat \<Rightarrow> nat \<Rightarrow> 'n rego_state \<Rightarrow> error + 'n rego_state" where
  "rego_loop pinv rnd G 0 st = Inr st"
| "rego_loop pinv rnd G (Suc k) st =
     (if n_edges st < 2 then Inr st
      else case rego_iteration pinv rnd G st of
             Inl e \<Rightarrow> Inl e
           | Inr st' \<Rightarrow> rego_loop pinv rnd G k st')"

text \<open>What the call returns: the address of the returned graph, the history, the store
  left behind, and the number of accepted swaps the source counts and prints.\<close>

record 'n rego_result =
  G_optimized :: nat
  history :: "real list"
  result_heap :: "'n heap"
  accepted :: nat

definition rego_optimizer ::
  "pinv_fun \<Rightarrow> (nat \<Rightarrow> nat \<times> nat) \<Rightarrow> 'n heap \<Rightarrow> nat \<Rightarrow> int \<Rightarrow> error + 'n rego_result" where
  "rego_optimizer pinv rnd h G_initial n_iter =
     bind_err (is_connected (h ! G_initial)) (\<lambda>conn.
       if \<not> conn then Inl ValueError
       else case alloc (deepcopy (h ! G_initial)) h of (G, h1) \<Rightarrow>
         (case calculate_Rs pinv (h1 ! G) of
            Inl ValueError \<Rightarrow>
              Inr \<lparr>G_optimized = G_initial, history = [], result_heap = h1, accepted = 0\<rparr>
          | Inl e \<Rightarrow> Inl e
          | Inr rs0 \<Rightarrow>
              if length (edges (h1 ! G)) < 2
              then Inr \<lparr>G_optimized = G, history = [rs0], result_heap = h1, accepted = 0\<rparr>
              else
                bind_err (rego_loop pinv rnd G (nat n_iter)
                            \<lparr>rheap = h1, current_rs = rs0, rs_history = [rs0],
                             edges_list = edges (h1 ! G), n_edges = length (edges (h1 ! G)),
                             accepted_swaps = 0, draws = 0\<rparr>) (\<lambda>st.
                  Inr \<lparr>G_optimized = G, history = rs_history st, result_heap = rheap st,
                       accepted = accepted_swaps st\<rparr>)))"

section \<open>Loop invariants\<close>

text \<open>
  The invariant of the outer loop of the greedy search, for the store \<open>h0\<close> and the
  graph address \<open>G\<close> of the call and the address \<open>cur\<close> of the working copy: the
  working copy lies beyond the caller's store, which is unchanged; it is well formed, has
  the nodes of the input and the edges of the input less the targets so far; the targets
  are different edges of the input; and each was an edge of the graph recorded for it.
\<close>

definition greedy_inv :: "'n heap \<Rightarrow> nat \<Rightarrow> nat \<Rightarrow> 'n greedy_state \<Rightarrow> bool" where
  "greedy_inv h0 G cur st \<longleftrightarrow>
     length h0 \<le> cur \<and> cur < length (heap st) \<and>
     (\<forall>a<length h0. heap st ! a = h0 ! a) \<and>
     wf_alt (heap st ! cur) \<and>
     nodes (heap st ! cur) = nodes (h0 ! G) \<and> nodes (h0 ! G) \<noteq> [] \<and>
     set (edges (heap st ! cur)) = set (edges (h0 ! G)) - set (best_targets st) \<and>
     set (best_targets st) \<subseteq> set (edges (h0 ! G)) \<and>
     distinct (best_targets st) \<and>
     length (delta_rs_history st) = length (best_targets st) \<and>
     length (graph_at_selection st) = length (best_targets st) \<and>
     (\<forall>i<length (best_targets st).
        best_targets st ! i \<in> set (edges (graph_at_selection st ! i)) \<and>
        set (edges (graph_at_selection st ! i)) =
          set (edges (h0 ! G)) - set (take i (best_targets st)))"

text \<open>The stored neighbour pairs of a graph, both directions of every edge.\<close>

definition edge_rel :: "'n graph \<Rightarrow> ('n \<times> 'n) set" where
  "edge_rel g = {(a, b). b \<in> set (adj g a)}"

text \<open>One level of the breadth-first search.\<close>

definition bfs_step :: "'n graph \<Rightarrow> 'n set \<Rightarrow> 'n set" where
  "bfs_step g S = S \<union> (\<Union>u\<in>S. set (adj g u))"

text \<open>
  The invariant of the optimiser's loop, for the store \<open>h0\<close> and the graph address
  \<open>G0\<close> of the call, the address \<open>G\<close> of the working copy and the metric \<open>rs0\<close>
  of the input: the caller's store is unchanged; the working copy is well formed and
  connected and has the nodes and the degrees of the input; the cached edges are edges of
  it; the history starts with \<open>rs0\<close>, ends with \<open>current_rs\<close>, increases strictly and
  has one entry more than there were accepted swaps.
\<close>

definition rego_inv :: "'n heap \<Rightarrow> nat \<Rightarrow> nat \<Rightarrow> real \<Rightarrow> 'n rego_state \<Rightarrow> bool" where
  "rego_inv h0 G0 G rs0 st \<longleftrightarrow>
     length h0 \<le> G \<and> G < length (rheap st) \<and>
     (\<forall>a<length h0. rheap st ! a = h0 ! a) \<and>
     wf_alt (rheap st ! G) \<and>
     nodes (rheap st ! G) = nodes (h0 ! G0) \<and>
     (\<forall>n. degree (rheap st ! G) n = degree (h0 ! G0) n) \<and>
     is_connected (rheap st ! G) = Inr True \<and>
     set (edges_list st) \<subseteq> edge_rel (rheap st ! G) \<and>
     n_edges st = length (edges_list st) \<and>
     rs_history st \<noteq> [] \<and> hd (rs_history st) = rs0 \<and>
     last (rs_history st) = current_rs st \<and>
     sorted_wrt (<) (rs_history st) \<and>
     length (rs_history st) = Suc (accepted_swaps st)"

section \<open>Example inputs\<close>

text \<open>A path on three nodes, a square, two separate edges, the all-zero array of side 4,
  a pseudoinverse stub, and a fixed random stream.\<close>

definition path3 :: "nat graph" where
  "path3 = [(0, [1]), (1, [0, 2]), (2, [1])]"

definition square4 :: "nat graph" where
  "square4 = [(0, [1, 3]), (1, [0, 2]), (2, [1, 3]), (3, [2, 0])]"

definition two_edges :: "nat graph" where
  "two_edges = [(0, [1]), (1, [0]), (2, [3]), (3, [2])]"

definition single_edge :: "nat graph" where
  "single_edge = [(0, [1]), (1, [0])]"

definition zeros4 :: ndarray where
  "zeros4 = \<lparr>shape = 4, item = (\<lambda>i j. 0)\<rparr>"

definition pinv_zero :: pinv_fun where
  "pinv_zero n M = (\<lambda>i j. 0)"

definition pinv_same :: pinv_fun where
  "pinv_same n M = M"

definition rnd_fixed :: "nat \<Rightarrow> nat \<times> nat" where
  "rnd_fixed k = (k, 1)"

section \<open>Properties of the graph operations\<close>

lemma map_of_Some_dom: "map_of g u = Some x \<Longrightarrow> u \<in> fst ` set g"
  by (metis domI dom_map_of_conv_image_fst)

lemma nodes_upd_adj [simp]: "nodes (upd_adj u f g) = nodes g"
  by (induction g) (auto simp: upd_adj_def nodes_def)

lemma map_of_upd_adj:
  "map_of (upd_adj u f g) w = (if w = u then map_option f (map_of g u) else map_of g w)"
  by (induction g) (auto simp: upd_adj_def)

lemma adj_upd_adj:
  "adj (upd_adj u f g) w = (if w = u \<and> u \<in> set (nodes g) then f (adj g u) else adj g w)"
  by (auto simp: adj_def map_of_upd_adj nodes_def map_of_eq_None_iff split: option.splits
      dest: map_of_Some_dom)

lemma adj_not_node: "u \<notin> set (nodes g) \<Longrightarrow> adj g u = []"
  by (auto simp: adj_def nodes_def map_of_eq_None_iff split: option.splits dest: map_of_Some_dom)

lemma nodes_add_node: "nodes (add_node n g) = (if n \<in> set (nodes g) then nodes g else nodes g @ [n])"
  by (simp add: add_node_def nodes_def)

lemma adj_add_node [simp]: "adj (add_node n g) w = adj g w"
  by (auto simp: add_node_def adj_def nodes_def map_of_eq_None_iff map_add_def
      split: option.splits dest: map_of_Some_dom)

lemma set_nodes_add_edge: "set (nodes (add_edge u v g)) = insert u (insert v (set (nodes g)))"
  by (auto simp: add_edge_def nodes_add_node)

lemma nodes_add_edge_in: "u \<in> set (nodes g) \<Longrightarrow> v \<in> set (nodes g) \<Longrightarrow> nodes (add_edge u v g) = nodes g"
  by (auto simp: add_edge_def nodes_add_node)

lemma adj_add_edge:
  "u \<noteq> v \<Longrightarrow> adj (add_edge u v g) w =
     (if w = u then add_nbr v (adj g u) else if w = v then add_nbr u (adj g v) else adj g w)"
  by (auto simp: add_edge_def adj_upd_adj nodes_add_node)

lemma set_adj_add_edge:
  "set (adj (add_edge u v g) w) =
     set (adj g w) \<union> (if w = u then {v} else {}) \<union> (if w = v then {u} else {})"
  by (auto simp: add_edge_def adj_upd_adj nodes_add_node add_nbr_def)

lemma remove_edge_Inr:
  assumes "remove_edge u v g = Inr g'"
  shows "nodes g' = nodes g"
    and "v \<in> set (adj g u)"
    and "adj g' w = (if w = u then remove1 v (adj g u) else if w = v then remove1 u (adj g v) else adj g w)"
  using assms
  by (auto simp: remove_edge_def Let_def adj_upd_adj adj_not_node split: if_splits)

lemma wf_graph_alt: "wf_graph g \<longleftrightarrow> wf_alt g"
proof
  assume wf: "wf_graph g"
  then have d: "distinct (map fst g)" by (simp add: wf_graph_def)
  have mem: "\<And>u ns. map_of g u = Some ns \<Longrightarrow> (u, ns) \<in> set g"
    by (rule map_of_SomeD)
  show "wf_alt g"
    unfolding wf_alt_def
  proof (intro conjI allI impI)
    show "distinct (nodes g)" using d by (simp add: nodes_def)
  next
    fix u show "distinct (adj g u)"
      using wf mem[of u] by (fastforce simp: adj_def wf_graph_def split: option.splits)
  next
    fix u v assume "v \<in> set (adj g u)"
    then obtain ns where "map_of g u = Some ns" "v \<in> set ns"
      by (cases "map_of g u") (auto simp: adj_def)
    then have "(u, ns) \<in> set g" using mem by blast
    with wf \<open>v \<in> set ns\<close> have "v \<in> fst ` set g \<and> u \<in> set (adj g v)"
      by (fastforce simp: wf_graph_def)
    then show "v \<in> set (nodes g)" "u \<in> set (adj g v)" by (auto simp: nodes_def)
  qed
next
  assume wf: "wf_alt g"
  then have d: "distinct (map fst g)" by (simp add: wf_alt_def nodes_def)
  have adj_eq: "\<And>u ns. (u, ns) \<in> set g \<Longrightarrow> adj g u = ns"
    using d by (simp add: adj_def)
  show "wf_graph g"
    unfolding wf_graph_def
  proof (intro conjI ballI, goal_cases)
    case 1 show ?case by (rule d)
  next
    case (2 x)
    obtain u ns where x: "x = (u, ns)" by (cases x)
    with 2 have a: "adj g u = ns" using adj_eq by blast
    from wf have "distinct (adj g u)"
      and "\<forall>v. v \<in> set (adj g u) \<longrightarrow> v \<in> set (nodes g) \<and> u \<in> set (adj g v)"
      by (auto simp: wf_alt_def)
    then show ?case unfolding x a by (auto simp: nodes_def)
  qed
qed

lemma adj_in_nodes: "v \<in> set (adj g u) \<Longrightarrow> u \<in> set (nodes g)"
  using adj_not_node[of u g] by (cases "u \<in> set (nodes g)") auto

lemma remove_edge_succeeds:
  assumes "wf_alt g" "v \<in> set (adj g u)"
  shows "\<exists>g'. remove_edge u v g = Inr g'"
proof -
  from assms have vu: "u \<in> set (adj g v)" and un: "u \<in> set (nodes g)"
    by (auto simp: wf_alt_def dest: adj_in_nodes)
  then show ?thesis using assms
    by (auto simp: remove_edge_def Let_def adj_upd_adj)
qed

lemma wf_alt_remove_edge:
  assumes "wf_alt g" "remove_edge u v g = Inr g'"
  shows "wf_alt g'"
proof -
  note r = remove_edge_Inr[OF assms(2)]
  from assms(1) have d: "\<And>w. distinct (adj g w)" by (simp add: wf_alt_def)
  have s: "\<And>w. set (adj g' w) = set (adj g w) - (if w = u then {v} else {}) - (if w = v then {u} else {})"
    using d by (auto simp: r(3))
  show ?thesis
    unfolding wf_alt_def
  proof (intro conjI allI impI)
    show "distinct (nodes g')" using assms(1) by (simp add: r(1) wf_alt_def)
    fix w show "distinct (adj g' w)" using d by (simp add: r(3))
  next
    fix a b assume "b \<in> set (adj g' a)"
    then have "b \<in> set (adj g a)" and ne: "\<not> (a = u \<and> b = v)" "\<not> (a = v \<and> b = u)"
      by (auto simp: s split: if_splits)
    with assms(1) have "b \<in> set (nodes g)" "a \<in> set (adj g b)" by (auto simp: wf_alt_def)
    then show "b \<in> set (nodes g')" "a \<in> set (adj g' b)"
      using ne by (auto simp: r(1) s)
  qed
qed

lemma set_adj_remove_edge:
  assumes "wf_alt g" "remove_edge u v g = Inr g'"
  shows "set (adj g' w) = set (adj g w) - (if w = u then {v} else {}) - (if w = v then {u} else {})"
proof -
  from assms(1) have d: "\<And>w. distinct (adj g w)" by (simp add: wf_alt_def)
  show ?thesis using d by (auto simp: remove_edge_Inr(3)[OF assms(2)])
qed

lemma distinct_nodes_add_node: "distinct (nodes g) \<Longrightarrow> distinct (nodes (add_node n g))"
  by (simp add: nodes_add_node)

lemma nodes_add_edge: "nodes (add_edge u v g) = nodes (add_node v (add_node u g))"
  by (simp add: add_edge_def)

lemma distinct_adj_add_edge:
  assumes "\<And>w. distinct (adj g w)"
  shows "distinct (adj (add_edge u v g) w)"
  using assms by (auto simp: add_edge_def adj_upd_adj add_nbr_def)

lemma wf_alt_add_edge:
  assumes "wf_alt g"
  shows "wf_alt (add_edge u v g)"
  unfolding wf_alt_def
proof (intro conjI allI impI)
  show "distinct (nodes (add_edge u v g))"
    using assms by (simp add: nodes_add_edge distinct_nodes_add_node wf_alt_def)
  fix w show "distinct (adj (add_edge u v g) w)"
    using assms by (intro distinct_adj_add_edge) (simp add: wf_alt_def)
next
  fix a b assume "b \<in> set (adj (add_edge u v g) a)"
  then show "b \<in> set (nodes (add_edge u v g))" "a \<in> set (adj (add_edge u v g) b)"
    using assms by (auto simp: set_adj_add_edge set_nodes_add_edge wf_alt_def split: if_splits)
qed

lemma edges_from_fst: "(u, v) \<in> set (edges_from seen g) \<Longrightarrow> u \<in> fst ` set g"
  by (induction seen g rule: edges_from.induct) auto

lemma set_edges_from:
  "distinct (map fst g) \<Longrightarrow>
   set (edges_from seen g) =
     {(u, v). u \<in> fst ` set g \<and> v \<in> set (adj g u) \<and> v \<notin> set seen \<and>
              v \<notin> set (takeWhile (\<lambda>x. x \<noteq> u) (map fst g))}"
proof (induction seen g rule: edges_from.induct)
  case (1 seen)
  then show ?case by simp
next
  case (2 seen n nbrs rest)
  have a: "adj ((n, nbrs) # rest) n = nbrs" by (simp add: adj_def)
  have b: "\<And>u. u \<noteq> n \<Longrightarrow> adj ((n, nbrs) # rest) u = adj rest u" by (simp add: adj_def)
  from 2 have IH: "set (edges_from (n # seen) rest) =
     {(u, v). u \<in> fst ` set rest \<and> v \<in> set (adj rest u) \<and> v \<notin> set (n # seen) \<and>
              v \<notin> set (takeWhile (\<lambda>x. x \<noteq> u) (map fst rest))}"
    and nn: "n \<notin> fst ` set rest" by auto
  have c: "\<And>aa ba. (aa, ba) \<in> set rest \<Longrightarrow> adj ((n, nbrs) # rest) aa = adj rest aa"
    using nn b by force
  show ?case
    unfolding edges_from.simps set_append IH
    using nn by (auto simp: a c)
qed

lemma set_edges:
  "distinct (nodes g) \<Longrightarrow>
   set (edges g) = {(u, v). v \<in> set (adj g u) \<and> v \<notin> set (takeWhile (\<lambda>x. x \<noteq> u) (nodes g))}"
proof -
  assume d: "distinct (nodes g)"
  have "\<And>u v. v \<in> set (adj g u) \<Longrightarrow> u \<in> fst ` set g"
    using adj_not_node[of _ g] by (fastforce simp: nodes_def)
  then show ?thesis
    using d by (auto simp: edges_def nodes_def set_edges_from)
qed

lemma distinct_edges_from:
  "distinct (map fst g) \<Longrightarrow> (\<forall>(u, ns) \<in> set g. distinct ns) \<Longrightarrow> distinct (edges_from seen g)"
proof (induction seen g rule: edges_from.induct)
  case (1 seen)
  then show ?case by simp
next
  case (2 seen n nbrs rest)
  then have "distinct (edges_from (n # seen) rest)" by auto
  moreover have "distinct (map (Pair n) (filter (\<lambda>v. v \<notin> set seen) nbrs))"
    using 2 by (auto simp: distinct_map inj_on_def)
  moreover have "\<And>v. (n, v) \<notin> set (edges_from (n # seen) rest)"
    using 2(2) edges_from_fst[of n _ "n # seen" rest] by auto
  ultimately show ?case by auto
qed

lemma distinct_edges: "wf_graph g \<Longrightarrow> distinct (edges g)"
  unfolding edges_def by (rule distinct_edges_from) (auto simp: wf_graph_def)

lemma edges_in_graph:
  assumes "wf_alt g" "(u, v) \<in> set (edges g)"
  shows "v \<in> set (adj g u)" "u \<in> set (adj g v)" "u \<in> set (nodes g)" "v \<in> set (nodes g)"
  using assms by (auto simp: set_edges wf_alt_def dest: adj_in_nodes)

lemma set_edges_cong:
  assumes "nodes g' = nodes g" "\<And>u. set (adj g' u) = set (adj g u)" "distinct (nodes g)"
  shows "set (edges g') = set (edges g)"
  using assms by (simp add: set_edges)

lemma bfs_levels_cong:
  assumes "\<And>u. set (adj g' u) = set (adj g u)"
  shows "bfs_levels k g' S = bfs_levels k g S"
  by (induction k arbitrary: S) (simp_all add: assms)

lemma is_connected_cong:
  assumes "nodes g' = nodes g" "\<And>u. set (adj g' u) = set (adj g u)"
  shows "is_connected g' = is_connected g"
proof -
  from assms(1) have l: "length g' = length g" by (metis length_map nodes_def)
  show ?thesis
  proof (cases g)
    case Nil
    with l show ?thesis by (simp add: is_connected_def)
  next
    case (Cons p rest)
    then obtain p' rest' where g': "g' = p' # rest'" using l by (cases g') auto
    obtain n nbrs where p: "p = (n, nbrs)" by (cases p)
    obtain n' nbrs' where p': "p' = (n', nbrs')" by (cases p')
    from Cons g' assms(1) have "n' = n" by (simp add: nodes_def p p')
    then show ?thesis
      using l bfs_levels_cong[OF assms(2)]
      by (simp add: is_connected_def plain_bfs_def Cons g' p p')
  qed
qed

lemma takeWhile_order:
  assumes "u \<in> set xs" "v \<in> set xs" "u \<noteq> v"
  shows "v \<in> set (takeWhile (\<lambda>x. x \<noteq> u) xs) \<or> u \<in> set (takeWhile (\<lambda>x. x \<noteq> v) xs)"
  using assms by (induction xs) auto

lemma edges_oriented:
  assumes "wf_alt g" "(u, v) \<in> set (edges g)" "u \<noteq> v"
  shows "(v, u) \<notin> set (edges g)"
proof -
  from assms have "u \<in> set (nodes g)" "v \<in> set (nodes g)"
    and "v \<notin> set (takeWhile (\<lambda>x. x \<noteq> u) (nodes g))"
    by (auto simp: set_edges wf_alt_def dest: adj_in_nodes)
  with takeWhile_order[of u "nodes g" v] assms(3)
  have "u \<in> set (takeWhile (\<lambda>x. x \<noteq> v) (nodes g))" by auto
  then show ?thesis using assms(1) by (auto simp: set_edges wf_alt_def)
qed

lemma set_edges_remove_edge:
  assumes "wf_alt g" "(u, v) \<in> set (edges g)" "remove_edge u v g = Inr g'"
  shows "set (edges g') = set (edges g) - {(u, v)}"
proof -
  have d: "distinct (nodes g)" using assms(1) by (simp add: wf_alt_def)
  have n: "nodes g' = nodes g" by (rule remove_edge_Inr(1)[OF assms(3)])
  note s = set_adj_remove_edge[OF assms(1,3)]
  have rev: "u \<noteq> v \<Longrightarrow> (v, u) \<notin> set (edges g)"
    using edges_oriented[OF assms(1,2)] by simp
  show ?thesis
    using rev unfolding set_edges[OF d] set_edges[OF d[folded n]] n
    by (auto simp: s split: if_splits)
qed

section \<open>Properties of the metric\<close>

lemma update_fresh: "k \<notin> fst ` set al \<Longrightarrow> AList.update k v al = al @ [(k, v)]"
  by (induction al) auto

lemma map_of_fold_update:
  "map_of (fold (\<lambda>k. AList.update k (f k)) xs acc) u =
     (if u \<in> set xs then Some (f u) else map_of acc u)"
  by (induction xs arbitrary: acc) (auto simp: update_conv')

lemma fold_update_distinct:
  "distinct xs \<Longrightarrow> set xs \<inter> fst ` set acc = {} \<Longrightarrow>
   fold (\<lambda>k. AList.update k (f k)) xs acc = acc @ map (\<lambda>k. (k, f k)) xs"
proof (induction xs arbitrary: acc)
  case Nil
  then show ?case by simp
next
  case (Cons x xs)
  from Cons.prems have fresh: "x \<notin> fst ` set acc" by auto
  have "set xs \<inter> fst ` set (acc @ [(x, f x)]) = {}"
    using Cons.prems by auto
  with Cons have "fold (\<lambda>k. AList.update k (f k)) xs (acc @ [(x, f x)])
      = (acc @ [(x, f x)]) @ map (\<lambda>k. (k, f k)) xs" by simp
  then show ?case by (simp add: update_fresh[OF fresh])
qed

lemma map_of_degrees:
  "map_of (degrees g) u = (if u \<in> set (nodes g) then Some (degree g u) else None)"
  by (simp add: degrees_def map_of_fold_update)

lemma degrees_distinct:
  "distinct (nodes g) \<Longrightarrow> degrees g = map (\<lambda>n. (n, degree g n)) (nodes g)"
  by (simp add: degrees_def fold_update_distinct)

lemma lookup_degrees: "u \<in> set (nodes g) \<Longrightarrow> lookup (degrees g) u = Inr (degree g u)"
  by (simp add: lookup_def map_of_degrees)

lemma map_of_all_ones: "map_of (all_ones es) e = (if e \<in> set es then Some 1 else None)"
  by (simp add: all_ones_def map_of_fold_update)

lemma weights_loop_fold:
  assumes "\<forall>(u, v) \<in> set es. lookup ds u = Inr (d u) \<and> lookup ds v = Inr (d v)"
  shows "weights_loop ds db den es acc =
     Inr (fold (\<lambda>e. AList.update e (1 - (\<bar>real (d (fst e)) - db\<bar> + \<bar>real (d (snd e)) - db\<bar>) / den)) es acc)"
  using assms
  by (induction ds db den es acc rule: weights_loop.induct) (auto simp: bind_err_def Let_def)

lemma sum_list_ge_member: "(x::nat) \<in> set xs \<Longrightarrow> x \<le> sum_list xs"
  by (induction xs) auto

lemma d_bar_pos:
  assumes "wf_alt g" "edges g \<noteq> []"
  shows "0 < d_bar g"
proof -
  from assms(2) obtain u v where e: "(u, v) \<in> set (edges g)"
    by (cases "edges g") auto
  note eg = edges_in_graph[OF assms(1) e]
  from eg have "1 \<le> degree g u" by (cases "adj g u") (auto simp: degree_def)
  moreover have "degree g u \<in> set (map snd (degrees g))"
    using eg(3) assms(1) by (force simp: degrees_distinct wf_alt_def)
  ultimately have "1 \<le> sum_list (map snd (degrees g))"
    using sum_list_ge_member by fastforce
  moreover have "0 < number_of_nodes g" using eg(3) by (auto simp: number_of_nodes_def nodes_def)
  ultimately show ?thesis by (simp add: d_bar_def)
qed

lemma w_spec_le_1: "0 \<le> d_bar g \<Longrightarrow> w_spec g e \<le> 1"
  by (cases e) (simp add: w_spec_def)

lemma structural_weights_edges:
  assumes "wf_alt g" "edges g \<noteq> []"
  shows "\<exists>ws. calculate_structural_penalty_weights g = Inr ws \<and>
           (\<forall>e. map_of ws e = (if e \<in> set (edges g) then Some (w_spec g e) else None))"
proof -
  have db: "0 < d_bar g" by (rule d_bar_pos[OF assms])
  from assms(2) have N: "number_of_nodes g \<noteq> 0"
    by (auto simp: number_of_nodes_def edges_def)
  have lk: "\<forall>(u, v) \<in> set (edges g). lookup (degrees g) u = Inr (degree g u) \<and>
              lookup (degrees g) v = Inr (degree g v)"
    using edges_in_graph[OF assms(1)] by (auto simp: lookup_degrees)
  have den: "2 * real (number_of_nodes g) * d_bar g \<noteq> 0" using db N by simp
  have "calculate_structural_penalty_weights g =
      weights_loop (degrees g) (d_bar g) (2 * real (number_of_nodes g) * d_bar g) (edges g) []"
    unfolding calculate_structural_penalty_weights_def Let_def number_of_edges_def
      d_bar_def[symmetric]
    using assms(2) N db by simp
  then show ?thesis
    unfolding weights_loop_fold[OF lk]
    by (auto simp: map_of_fold_update w_spec_def split: prod.splits)
qed

lemma wf_path3: "wf_graph path3"
  by (simp add: wf_graph_def path3_def adj_def)

lemma edges_path3: "edges path3 = [(0, 1), (1, 2)]"
  by (simp add: edges_def path3_def)

lemma d_bar_path3: "d_bar path3 = 4 / 3"
  by (simp add: d_bar_def degrees_distinct nodes_def path3_def degree_def adj_def number_of_nodes_def)

lemma w_spec_path3: "w_spec path3 (0, 1) = 7 / 8"
  by (simp add: w_spec_def d_bar_path3) (simp add: path3_def degree_def adj_def number_of_nodes_def)

lemma index_of_less: "x \<in> set xs \<Longrightarrow> index_of xs x < length xs"
  unfolding index_of_def by (induction xs) auto

lemma nth_index_of: "x \<in> set xs \<Longrightarrow> xs ! index_of xs x = x"
  unfolding index_of_def by (induction xs) auto

lemma map_of_fold_enumerate:
  "distinct xs \<Longrightarrow>
   map_of (fold (\<lambda>(i, n). AList.update n i) (enumerate k xs) acc) u =
     (if u \<in> set xs then Some (k + index_of xs u) else map_of acc u)"
proof (induction xs arbitrary: k acc)
  case Nil
  then show ?case by simp
next
  case (Cons x xs)
  then show ?case by (auto simp: update_conv' index_of_def)
qed

lemma lookup_node_map:
  "distinct (nodes g) \<Longrightarrow> u \<in> set (nodes g) \<Longrightarrow>
   lookup (node_map g) u = Inr (index_of (nodes g) u)"
  by (simp add: lookup_def node_map_def map_of_fold_enumerate)

lemma resistances_loop_fold:
  assumes "\<forall>(u, v) \<in> set es. lookup nm u = Inr (idx u) \<and> lookup nm v = Inr (idx v) \<and>
             idx u < shape L \<and> idx v < shape L"
  shows "resistances_loop L nm es res =
     Inr (fold (\<lambda>e. AList.update e
            (max 0 (item L (idx (fst e)) (idx (fst e)) + item L (idx (snd e)) (idx (snd e))
                    - 2 * item L (idx (fst e)) (idx (snd e))))) es res)"
  using assms
  by (induction L nm es res rule: resistances_loop.induct)
     (auto simp: bind_err_def getitem_def)

lemma effective_resistance_map:
  assumes "wf_alt g" "shape L = length g"
  shows "resistances_loop L (node_map g) (edges g) [] = Inr (map (\<lambda>e. (e, omega L g e)) (edges g))"
proof -
  have d: "distinct (nodes g)" using assms(1) by (simp add: wf_alt_def)
  have l: "length (nodes g) = length g" by (simp add: nodes_def)
  have lk: "\<forall>(u, v) \<in> set (edges g).
      lookup (node_map g) u = Inr (index_of (nodes g) u) \<and>
      lookup (node_map g) v = Inr (index_of (nodes g) v) \<and>
      index_of (nodes g) u < shape L \<and> index_of (nodes g) v < shape L"
    using edges_in_graph[OF assms(1)] index_of_less[of _ "nodes g"] d
    by (auto simp: lookup_node_map assms(2) l)
  have de: "distinct (edges g)" using assms(1) by (simp add: distinct_edges wf_graph_alt)
  show ?thesis
    unfolding resistances_loop_fold[OF lk]
    by (simp add: fold_update_distinct[OF de] omega_def split_def)
qed

lemma map_of_graph_map: "map_of (map (\<lambda>e. (e, f e)) es) e = (if e \<in> set es then Some (f e) else None)"
  by (induction es) auto

lemma Rs_loop_sum:
  assumes "\<forall>e \<in> set es. map_of ps e = Some (p e) \<and> map_of ws e = Some (w e) \<and> 0 \<le> p e"
  shows "Rs_loop ps ws es (a, l) =
     (a + (\<Sum>e\<leftarrow>es. entropy_term (p e) (w e)), l @ map (\<lambda>e. 1 / p e) (filter (\<lambda>e. 0 < p e) es))"
  using assms
proof (induction es arbitrary: a l)
  case Nil
  then show ?case by simp
next
  case (Cons e es)
  then have IH: "\<And>a l. Rs_loop ps ws es (a, l) =
     (a + (\<Sum>e\<leftarrow>es. entropy_term (p e) (w e)), l @ map (\<lambda>e. 1 / p e) (filter (\<lambda>e. 0 < p e) es))"
    by simp
  from Cons.prems have e: "map_of ps e = Some (p e)" "map_of ws e = Some (w e)" "0 \<le> p e"
    by auto
  show ?case
  proof (cases "0 < p e")
    case True
    then show ?thesis by (simp add: e IH entropy_term_def)
  next
    case False
    with e(3) have "p e = 0" by simp
    then show ?thesis by (simp add: e IH entropy_term_def)
  qed
qed

lemma omega_nonneg: "0 \<le> omega L g e"
  by (cases e) (simp add: omega_def)

lemma calculate_Rs_logged_spec:
  assumes "wf_graph g" "is_connected g = Inr True"
  shows "\<exists>logged. calculate_Rs_logged pinv g = Inr (rs_spec pinv g, logged) \<and> (\<forall>x \<in> set logged. 0 < x)"
proof (cases "number_of_edges g = 0")
  case True
  then show ?thesis
    using assms(2) by (simp add: calculate_Rs_logged_def rs_spec_def bind_err_def)
next
  case False
  from assms(1) have wf: "wf_alt g" by (simp add: wf_graph_alt)
  define L where "L = np_linalg_pinv pinv (laplacian_matrix g)"
  define T where "T = (\<Sum>e\<leftarrow>edges g. omega L g e)"
  have sh: "shape L = length g" by (simp add: L_def np_linalg_pinv_def laplacian_matrix_def)
  have res: "calculate_all_pairs_effective_resistance pinv g None =
      Inr (map (\<lambda>e. (e, omega L g e)) (edges g))"
    using assms(2) effective_resistance_map[OF wf sh]
    by (simp add: calculate_all_pairs_effective_resistance_def
        calculate_laplacian_pseudoinverse_def bind_err_def L_def)
  have tot: "sum_list (map snd (map (\<lambda>e. (e, omega L g e)) (edges g))) = T"
    by (simp add: T_def comp_def)
  have Tnn: "0 \<le> T" unfolding T_def by (rule sum_list_nonneg) (auto simp: omega_nonneg)
  from False have ne: "edges g \<noteq> []" by (auto simp: number_of_edges_def)
  from structural_weights_edges[OF wf ne] obtain ws where
    ws: "calculate_structural_penalty_weights g = Inr ws"
    and m: "\<And>e. map_of ws e = (if e \<in> set (edges g) then Some (w_spec g e) else None)"
    by blast
  show ?thesis
  proof (cases "T = 0")
    case True
    then show ?thesis
      using assms(2) False
      by (simp add: calculate_Rs_logged_def rs_spec_def bind_err_def res tot
          L_def[symmetric] T_def[symmetric] Let_def del: map_map)
  next
    case Tz: False
    with Tnn have Tpos: "0 < T" by simp
    define ps where "ps = map (\<lambda>(edge, res). (edge, res / T)) (map (\<lambda>e. (e, omega L g e)) (edges g))"
    have ps': "ps = map (\<lambda>e. (e, omega L g e / T)) (edges g)" by (simp add: ps_def comp_def)
    have pre: "\<forall>e \<in> set (edges g). map_of ps e = Some (omega L g e / T) \<and>
        map_of ws e = Some (w_spec g e) \<and> 0 \<le> omega L g e / T"
      using Tpos omega_nonneg[of L g] by (auto simp: ps' map_of_graph_map m)
    have "calculate_Rs_logged pinv g = Inr (Rs_loop ps ws (edges g) (0, []))"
      using assms(2) False Tz
      by (simp add: calculate_Rs_logged_def bind_err_def res tot ws ps_def Let_def del: map_map)
    also have "Rs_loop ps ws (edges g) (0, []) =
       (rs_spec pinv g, map (\<lambda>e. 1 / (omega L g e / T)) (filter (\<lambda>e. 0 < omega L g e / T) (edges g)))"
      unfolding Rs_loop_sum[OF pre] using False Tz
      by (simp add: rs_spec_def L_def[symmetric] T_def[symmetric] Let_def)
    finally have eq: "calculate_Rs_logged pinv g =
       Inr (rs_spec pinv g, map (\<lambda>e. 1 / (omega L g e / T)) (filter (\<lambda>e. 0 < omega L g e / T) (edges g)))" .
    have "\<forall>x \<in> set (map (\<lambda>e. 1 / (omega L g e / T)) (filter (\<lambda>e. 0 < omega L g e / T) (edges g))). 0 < x"
      using Tpos by (auto simp: zero_less_divide_iff)
    with eq show ?thesis by blast
  qed
qed

lemma calculate_Rs_spec:
  assumes "wf_graph g" "is_connected g = Inr True"
  shows "calculate_Rs pinv g = Inr (rs_spec pinv g)"
  using calculate_Rs_logged_spec[OF assms, of pinv] by (auto simp: calculate_Rs_def)

lemma calculate_Rs_disconnected: "is_connected g = Inr False \<Longrightarrow> calculate_Rs pinv g = Inl ValueError"
  by (simp add: calculate_Rs_def calculate_Rs_logged_def bind_err_def)

lemma rs_spec_single:
  assumes "number_of_edges g = 1"
  shows "rs_spec pinv g = 0"
proof -
  from assms obtain e where e: "edges g = [e]"
    by (cases "edges g") (auto simp: number_of_edges_def)
  show ?thesis
    by (simp add: rs_spec_def assms e Let_def entropy_term_def)
qed

lemma resistances_loop_not_ValueError:
  "resistances_loop L nm es res \<noteq> Inl ValueError"
  by (induction L nm es res rule: resistances_loop.induct)
     (auto simp: bind_err_def lookup_def getitem_def split: option.splits sum.splits if_splits)

lemma connected_single_edge: "is_connected single_edge = Inr True"
  by code_simp

lemma disconnected_two_edges: "is_connected two_edges = Inr False"
  by code_simp

lemma connected_path3: "is_connected path3 = Inr True"
  by code_simp

lemma connected_square4: "is_connected square4 = Inr True"
  by code_simp

lemma wf_square4: "wf_graph square4"
  by (simp add: wf_graph_def square4_def adj_def)

lemma wf_single_edge: "wf_graph single_edge"
  by (simp add: wf_graph_def single_edge_def adj_def)

lemma edges_two_edges: "edges two_edges = [(0, 1), (2, 3)]"
  by (simp add: edges_def two_edges_def)

lemma effres_two_edges:
  "calculate_all_pairs_effective_resistance pinv_zero two_edges (Some zeros4) =
     Inr [((0, 1), 0), ((2, 3), 0)]"
  by code_simp

section \<open>The metric: claims\<close>

lemma wf_two_edges: "wf_graph two_edges"
  by (simp add: wf_graph_def two_edges_def adj_def)

text \<open>
  C1 (as amended). On a disconnected graph \<open>calculate_Rs\<close>,
  \<open>calculate_laplacian_pseudoinverse\<close> and \<open>calculate_all_pairs_effective_resistance\<close>
  without a pseudoinverse raise \<open>ValueError\<close>, so no result is returned. With a
  pseudoinverse supplied, \<open>calculate_all_pairs_effective_resistance\<close> makes no
  connectivity test and never raises \<open>ValueError\<close>.
\<close>

theorem disconnected_raises:
  assumes "is_connected g = Inr False"
  shows "calculate_Rs pinv g = Inl ValueError \<and>
         calculate_laplacian_pseudoinverse pinv g = Inl ValueError \<and>
         calculate_all_pairs_effective_resistance pinv g None = Inl ValueError \<and>
         calculate_all_pairs_effective_resistance pinv g (Some L) \<noteq> Inl ValueError"
  using assms resistances_loop_not_ValueError[of L "node_map g" "edges g" "[]"]
  by (simp add: calculate_Rs_disconnected calculate_laplacian_pseudoinverse_def
      calculate_all_pairs_effective_resistance_def bind_err_def)

theorem disconnected_raises_witness:
  "is_connected two_edges = Inr False \<and>
   calculate_Rs pinv_zero two_edges = Inl ValueError \<and>
   calculate_laplacian_pseudoinverse pinv_zero two_edges = Inl ValueError \<and>
   calculate_all_pairs_effective_resistance pinv_zero two_edges None = Inl ValueError \<and>
   calculate_all_pairs_effective_resistance pinv_zero two_edges (Some zeros4) \<noteq> Inl ValueError"
  using disconnected_raises[OF disconnected_two_edges, of pinv_zero zeros4]
  by (simp add: disconnected_two_edges)

text \<open>
  C1 as stated fails: on two separate edges, which is a disconnected graph, with an array
  supplied as the pseudoinverse, \<open>calculate_all_pairs_effective_resistance\<close> returns a
  resistance for each edge instead of raising.
\<close>

theorem supplied_pseudoinverse_counterexample:
  "is_connected two_edges = Inr False \<and>
   calculate_all_pairs_effective_resistance pinv_zero two_edges (Some zeros4) =
     Inr [((0, 1), 0), ((2, 3), 0)]"
  by (simp add: disconnected_two_edges effres_two_edges)

text \<open>
  C2. On a connected graph \<open>calculate_Rs\<close> returns the value the specification words:
  0 without edges; otherwise, with \<open>\<Omega>\<close> the clamped resistances and \<open>T\<close> their sum,
  0 when \<open>T = 0\<close> and else the sum over the edges of \<open>p ln (1/p) w\<close> with
  \<open>p = \<Omega> / T\<close>, a term with \<open>p = 0\<close> counting 0. No argument handed to the
  logarithm is 0.
\<close>

theorem calculate_Rs_refines_spec:
  assumes "wf_graph g" "is_connected g = Inr True"
  shows "calculate_Rs pinv g = Inr (rs_spec pinv g) \<and>
         (\<exists>logged. calculate_Rs_logged pinv g = Inr (rs_spec pinv g, logged) \<and>
                    (\<forall>x \<in> set logged. x \<noteq> 0))"
proof -
  from calculate_Rs_logged_spec[OF assms, of pinv] obtain logged where
    "calculate_Rs_logged pinv g = Inr (rs_spec pinv g, logged)" "\<forall>x \<in> set logged. 0 < x"
    by blast
  then show ?thesis by (auto simp: calculate_Rs_def)
qed

lemma omega_path3:
  "omega (np_linalg_pinv pinv_same (laplacian_matrix path3)) path3 (0, 1) = 5"
  "omega (np_linalg_pinv pinv_same (laplacian_matrix path3)) path3 (1, 2) = 5"
  by code_simp+

lemma w_spec_path3_all: "w_spec path3 (0, Suc 0) = 7 / 8" "w_spec path3 (Suc 0, 2) = 7 / 8"
  by code_simp+

lemma rs_spec_path3: "rs_spec pinv_same path3 = 7 / 8 * ln 2"
proof -
  have "rs_spec pinv_same path3 = entropy_term (1 / 2) (7 / 8) + entropy_term (1 / 2) (7 / 8)"
    by (simp add: rs_spec_def number_of_edges_def edges_path3 Let_def
        omega_path3[simplified] w_spec_path3_all)
  also have "\<dots> = 7 / 8 * ln 2"
    by (simp add: entropy_term_def)
  finally show ?thesis .
qed

theorem calculate_Rs_refines_spec_witness:
  "wf_graph path3 \<and> is_connected path3 = Inr True \<and>
   calculate_Rs pinv_same path3 = Inr (7 / 8 * ln 2)"
  using calculate_Rs_refines_spec[OF wf_path3 connected_path3, of pinv_same]
  by (simp add: wf_path3 connected_path3 rs_spec_path3)

text \<open>
  C10. On a connected graph with exactly one edge \<open>calculate_Rs\<close> returns 0, whatever
  the pseudoinverse and the structural weight are.
\<close>

theorem single_edge_rs_zero:
  assumes "wf_graph g" "is_connected g = Inr True" "number_of_edges g = 1"
  shows "calculate_Rs pinv g = Inr 0"
  using calculate_Rs_spec[OF assms(1,2), of pinv] rs_spec_single[OF assms(3), of pinv] by simp

lemma number_of_edges_single_edge: "number_of_edges single_edge = 1"
  by (simp add: number_of_edges_def edges_def single_edge_def)

theorem single_edge_rs_zero_witness:
  "wf_graph single_edge \<and> is_connected single_edge = Inr True \<and>
   number_of_edges single_edge = 1 \<and> calculate_Rs pinv_same single_edge = Inr 0"
  using single_edge_rs_zero[OF wf_single_edge connected_single_edge number_of_edges_single_edge,
      of pinv_same]
  by (simp add: wf_single_edge connected_single_edge number_of_edges_single_edge)

text \<open>
  C8. \<open>calculate_structural_penalty_weights\<close> returns the empty mapping when the graph
  has no nodes or no edges, the weight 1 for every edge when the mean degree is 0, and
  otherwise \<open>1 - (|d\<^sub>u - d| + |d\<^sub>v - d|) / (2 N d)\<close> for each edge \<open>(u, v)\<close>. Its keys
  are the edges of the graph and every weight is at most 1.
\<close>

theorem penalty_weights_formula:
  assumes "wf_graph g"
  shows "\<exists>ws. calculate_structural_penalty_weights g = Inr ws \<and>
     (number_of_nodes g = 0 \<or> number_of_edges g = 0 \<longrightarrow> ws = []) \<and>
     (d_bar g = 0 \<longrightarrow> (\<forall>e \<in> set (edges g). map_of ws e = Some 1)) \<and>
     (number_of_nodes g \<noteq> 0 \<and> number_of_edges g \<noteq> 0 \<and> d_bar g \<noteq> 0 \<longrightarrow>
        (\<forall>e \<in> set (edges g). map_of ws e = Some (w_spec g e))) \<and>
     fst ` set ws = set (edges g) \<and>
     (\<forall>e w. map_of ws e = Some w \<longrightarrow> w \<le> 1)"
proof (cases "edges g = []")
  case True
  then have "calculate_structural_penalty_weights g = Inr []"
    by (simp add: calculate_structural_penalty_weights_def number_of_edges_def)
  then show ?thesis using True by (simp add: number_of_edges_def)
next
  case False
  from assms have wf: "wf_alt g" by (simp add: wf_graph_alt)
  from structural_weights_edges[OF wf False] obtain ws where
    ws: "calculate_structural_penalty_weights g = Inr ws"
    and m: "\<And>e. map_of ws e = (if e \<in> set (edges g) then Some (w_spec g e) else None)"
    by blast
  have db: "0 < d_bar g" by (rule d_bar_pos[OF wf False])
  have "fst ` set ws = set (edges g)"
    using m by (auto simp: dom_map_of_conv_image_fst[symmetric] dom_def)
  moreover have "\<forall>e w. map_of ws e = Some w \<longrightarrow> w \<le> 1"
    using m w_spec_le_1[of g] db by (auto split: if_splits)
  ultimately show ?thesis
    using ws m db False by (auto simp: number_of_edges_def number_of_nodes_def edges_def)
qed

theorem penalty_weights_formula_witness:
  "wf_graph path3 \<and>
   (\<exists>ws. calculate_structural_penalty_weights path3 = Inr ws \<and>
      map_of ws (0, 1) = Some (7 / 8) \<and>
      fst ` set ws = {(0, 1), (1, 2)} \<and>
      (\<forall>e w. map_of ws e = Some w \<longrightarrow> w \<le> 1))"
proof -
  have n: "number_of_nodes path3 \<noteq> 0" "number_of_edges path3 \<noteq> 0" "d_bar path3 \<noteq> 0"
    by (simp_all add: number_of_nodes_def number_of_edges_def edges_path3 d_bar_path3)
      (simp add: path3_def)
  from penalty_weights_formula[OF wf_path3] n show ?thesis
    by (auto simp: wf_path3 edges_path3 w_spec_path3_all)
qed

section \<open>Properties of copying\<close>

lemma nodes_fold_add_node:
  "distinct xs \<Longrightarrow> set xs \<inter> set (nodes acc) = {} \<Longrightarrow>
   nodes (fold add_node xs acc) = nodes acc @ xs"
proof (induction xs arbitrary: acc)
  case Nil
  then show ?case by simp
next
  case (Cons x xs)
  from Cons.prems have "nodes (add_node x acc) = nodes acc @ [x]"
    by (simp add: nodes_add_node)
  moreover from Cons.prems have "set xs \<inter> set (nodes acc @ [x]) = {}" by auto
  ultimately show ?case using Cons by simp
qed

lemma adj_fold_add_node: "adj (fold add_node xs acc) w = adj acc w"
  by (induction xs arbitrary: acc) simp_all

lemma adj_Nil [simp]: "adj [] w = []"
  by (simp add: adj_def)

lemma fold_add_edge:
  assumes "wf_alt h" "\<forall>(u, v) \<in> set ps. u \<in> set (nodes h) \<and> v \<in> set (nodes h)"
  shows "wf_alt (fold (\<lambda>(u, v). add_edge u v) ps h) \<and>
         nodes (fold (\<lambda>(u, v). add_edge u v) ps h) = nodes h \<and>
         (\<forall>w. set (adj (fold (\<lambda>(u, v). add_edge u v) ps h) w) =
               set (adj h w) \<union> {v. (w, v) \<in> set ps \<or> (v, w) \<in> set ps})"
  using assms
proof (induction ps arbitrary: h)
  case Nil
  then show ?case by simp
next
  case (Cons p ps)
  obtain u v where p: "p = (u, v)" by (cases p)
  from Cons.prems p have uv: "u \<in> set (nodes h)" "v \<in> set (nodes h)" by auto
  have n: "nodes (add_edge u v h) = nodes h" by (rule nodes_add_edge_in[OF uv])
  have wf: "wf_alt (add_edge u v h)" by (rule wf_alt_add_edge[OF Cons.prems(1)])
  have pre: "\<forall>(a, b) \<in> set ps. a \<in> set (nodes (add_edge u v h)) \<and> b \<in> set (nodes (add_edge u v h))"
    using Cons.prems(2) by (auto simp: n)
  from Cons.IH[OF wf pre] show ?case
    by (auto simp: p n set_adj_add_edge split: if_splits)
qed

lemma set_adj_pairs:
  "distinct (map fst g) \<Longrightarrow>
   set (concat (map (\<lambda>(u, ns). map (Pair u) ns) g)) = {(u, v). v \<in> set (adj g u)}"
proof -
  assume d: "distinct (map fst g)"
  have "\<And>u ns. (u, ns) \<in> set g \<Longrightarrow> adj g u = ns"
    using d by (simp add: adj_def)
  moreover have "\<And>u v. v \<in> set (adj g u) \<Longrightarrow> (u, adj g u) \<in> set g"
    by (auto simp: adj_def split: option.splits dest: map_of_SomeD)
  ultimately have "{(u, v). \<exists>ns. (u, ns) \<in> set g \<and> v \<in> set ns} = {(u, v). v \<in> set (adj g u)}"
    by blast
  moreover have "set (concat (map (\<lambda>(u, ns). map (Pair u) ns) g)) =
      {(u, v). \<exists>ns. (u, ns) \<in> set g \<and> v \<in> set ns}"
    by (induction g) auto
  ultimately show ?thesis by simp
qed

lemma copy_props:
  assumes "wf_alt g"
  shows "wf_alt (copy g)" "nodes (copy g) = nodes g" "set (adj (copy g) w) = set (adj g w)"
proof -
  define base where "base = fold add_node (nodes g) ([] :: 'a graph)"
  define ps where "ps = concat (map (\<lambda>(u, ns). map (Pair u) ns) g)"
  from assms have d: "distinct (nodes g)" by (simp add: wf_alt_def)
  have nb: "nodes base = nodes g"
    using nodes_fold_add_node[OF d, of "[]"] by (simp add: base_def nodes_def)
  have ab: "\<And>w. adj base w = []" by (simp add: base_def adj_fold_add_node)
  have wfb: "wf_alt base" using d by (simp add: wf_alt_def nb ab)
  have sp: "set ps = {(u, v). v \<in> set (adj g u)}"
    unfolding ps_def using d by (intro set_adj_pairs) (simp add: nodes_def)
  have pre: "\<forall>(u, v) \<in> set ps. u \<in> set (nodes base) \<and> v \<in> set (nodes base)"
    using assms by (auto simp: sp nb wf_alt_def dest: adj_in_nodes)
  have c: "copy g = fold (\<lambda>(u, v). add_edge u v) ps base"
    by (simp add: copy_def ps_def base_def)
  from fold_add_edge[OF wfb pre] show "wf_alt (copy g)" "nodes (copy g) = nodes g"
    by (simp_all add: c nb)
  from fold_add_edge[OF wfb pre] assms show "set (adj (copy g) w) = set (adj g w)"
    by (auto simp: c ab sp wf_alt_def)
qed

lemma set_edges_copy: "wf_alt g \<Longrightarrow> set (edges (copy g)) = set (edges g)"
  by (rule set_edges_cong) (simp_all add: copy_props wf_alt_def)

lemma is_connected_copy: "wf_alt g \<Longrightarrow> is_connected (copy g) = is_connected g"
  by (rule is_connected_cong) (simp_all add: copy_props)

section \<open>Properties of the greedy search\<close>

lemma map_of_subgraph:
  "map_of (subgraph g S) u =
     (if u \<in> S then map_option (filter (\<lambda>v. v \<in> S)) (map_of g u) else None)"
  unfolding subgraph_def by (induction g) auto

lemma nodes_subgraph: "nodes (subgraph g S) = filter (\<lambda>u. u \<in> S) (nodes g)"
  unfolding subgraph_def nodes_def by (induction g) auto

lemma adj_subgraph:
  "adj (subgraph g S) u = (if u \<in> S then filter (\<lambda>v. v \<in> S) (adj g u) else [])"
  by (auto simp: adj_def map_of_subgraph split: option.splits)

lemma wf_alt_subgraph: "wf_alt g \<Longrightarrow> wf_alt (subgraph g S)"
  unfolding wf_alt_def by (auto simp: nodes_subgraph adj_subgraph)

lemma bfs_levels_mono: "S \<subseteq> bfs_levels k g S"
proof (induction k arbitrary: S)
  case 0
  show ?case by simp
next
  case (Suc k)
  have "S \<subseteq> S \<union> (\<Union>u\<in>S. set (adj g u))" by blast
  also have "\<dots> \<subseteq> bfs_levels k g (S \<union> (\<Union>u\<in>S. set (adj g u)))" by (rule Suc)
  finally show ?case by simp
qed

lemma plain_bfs_self: "v \<in> plain_bfs g v"
  using bfs_levels_mono[of "{v}" "length g" g] by (simp add: plain_bfs_def)

lemma components_from_elems:
  "c \<in> set (components_from g vs seen) \<Longrightarrow> \<exists>v \<in> set vs. c = plain_bfs g v"
  by (induction g vs seen rule: components_from.induct) (auto split: if_splits)

lemma components_from_nonempty:
  "\<exists>v \<in> set vs. v \<notin> seen \<Longrightarrow> components_from g vs seen \<noteq> []"
  by (induction g vs seen rule: components_from.induct) auto

lemma max_by_len_mem: "cs \<noteq> [] \<Longrightarrow> \<exists>m. max_by_len cs = Inr m \<and> m \<in> set cs"
  by (induction cs rule: max_by_len.induct) (auto split: sum.splits)

lemma is_connected_nonempty: "g \<noteq> [] \<Longrightarrow> \<exists>b. is_connected g = Inr b"
  by (cases g) (auto simp: is_connected_def)

lemma is_connected_Inr_nonempty: "is_connected g = Inr b \<Longrightarrow> g \<noteq> []"
  by (cases g) (auto simp: is_connected_def)

lemma nodes_Nil_iff: "nodes g = [] \<longleftrightarrow> g = []"
  by (simp add: nodes_def)

lemma largest_cc_graph_ok:
  assumes "wf_alt g" "g \<noteq> []"
  shows "\<exists>lcc. largest_cc_graph g = Inr lcc \<and> wf_alt lcc \<and> lcc \<noteq> []"
proof -
  from is_connected_nonempty[OF assms(2)] obtain b where b: "is_connected g = Inr b" by blast
  show ?thesis
  proof (cases b)
    case True
    with b assms show ?thesis by (simp add: largest_cc_graph_def bind_err_def)
  next
    case False
    from assms(2) obtain n where n: "n \<in> set (nodes g)"
      by (cases g) (auto simp: nodes_def)
    then have "connected_components g \<noteq> []"
      unfolding connected_components_def by (intro components_from_nonempty) auto
    from max_by_len_mem[OF this] obtain m where
      m: "max_by_len (connected_components g) = Inr m" "m \<in> set (connected_components g)"
      by blast
    from components_from_elems[OF m(2)[unfolded connected_components_def]]
    obtain v where v: "v \<in> set (nodes g)" "m = plain_bfs g v" by blast
    have "v \<in> set (nodes (subgraph g m))"
      using v plain_bfs_self[of v g] by (simp add: nodes_subgraph)
    then have "subgraph g m \<noteq> []" by (auto simp: nodes_def)
    then show ?thesis
      using b False m(1) wf_alt_subgraph[OF assms(1), of m]
      by (simp add: largest_cc_graph_def bind_err_def)
  qed
qed

lemma calculate_Rs_total:
  assumes "wf_alt g" "g \<noteq> []"
  shows "calculate_Rs pinv g = Inl ValueError \<or> (\<exists>r. calculate_Rs pinv g = Inr r)"
proof -
  from is_connected_nonempty[OF assms(2)] obtain b where b: "is_connected g = Inr b" by blast
  show ?thesis
  proof (cases b)
    case True
    with b calculate_Rs_spec[of g pinv] assms(1) show ?thesis by (simp add: wf_graph_alt)
  next
    case False
    with b calculate_Rs_disconnected[of g pinv] show ?thesis by simp
  qed
qed

lemma best_consider_candidate:
  "best_edge_to_remove (consider_candidate e r rs sel) = best_edge_to_remove sel \<or>
   best_edge_to_remove (consider_candidate e r rs sel) = Some e"
  by (simp add: consider_candidate_def Let_def)

lemma candidates_loop_ok:
  assumes "cur < length h" "wf_alt (h ! cur)" "h ! cur \<noteq> []" "set es \<subseteq> set (edges (h ! cur))"
  shows "\<exists>sel' h'. candidates_loop pinv cur rs es sel h = Inr (sel', h') \<and>
           length h \<le> length h' \<and> (\<forall>a<length h. h' ! a = h ! a) \<and>
           (best_edge_to_remove sel' = best_edge_to_remove sel \<or>
            (\<exists>e \<in> set es. best_edge_to_remove sel' = Some e))"
  using assms
proof (induction es arbitrary: sel h)
  case Nil
  then show ?case by simp
next
  case (Cons e es)
  define g where "g = h ! cur"
  define h2 where "h2 = (\<lambda>g'. (h @ [copy g])[length h := g'])"
  have wfc: "wf_alt (copy g)" using Cons.prems(2) by (simp add: g_def copy_props)
  have "e \<in> set (edges (copy g))"
    using Cons.prems by (simp add: g_def set_edges_copy)
  then have "snd e \<in> set (adj (copy g) (fst e))"
    using edges_in_graph(1)[OF wfc, of "fst e" "snd e"] by simp
  from remove_edge_succeeds[OF wfc this] obtain g' where
    g': "remove_edge (fst e) (snd e) (copy g) = Inr g'" by blast
  have wfg': "wf_alt g'" by (rule wf_alt_remove_edge[OF wfc g'])
  have "nodes g' = nodes g" using remove_edge_Inr(1)[OF g'] Cons.prems(2)
    by (simp add: g_def copy_props)
  with Cons.prems(3) have ne: "g' \<noteq> []" by (simp add: g_def nodes_Nil_iff[symmetric])
  from largest_cc_graph_ok[OF wfg' ne] obtain lcc where
    lcc: "largest_cc_graph g' = Inr lcc" "wf_alt lcc" "lcc \<noteq> []" by blast
  have h2_cur: "h2 g' ! cur = h ! cur" using Cons.prems(1) by (simp add: h2_def nth_append)
  have h2_len: "length (h2 g') = Suc (length h)" by (simp add: h2_def)
  have h2_frame: "\<forall>a<length h. h2 g' ! a = h ! a" by (simp add: h2_def nth_append)
  have pre: "cur < length (h2 g')" "wf_alt (h2 g' ! cur)" "h2 g' ! cur \<noteq> []"
    "set es \<subseteq> set (edges (h2 g' ! cur))"
    using Cons.prems by (simp_all add: h2_cur h2_len)
  have step: "\<exists>sel1. candidates_loop pinv cur rs (e # es) sel h =
                  candidates_loop pinv cur rs es sel1 (h2 g') \<and>
               (best_edge_to_remove sel1 = best_edge_to_remove sel \<or>
                best_edge_to_remove sel1 = Some e)"
  proof (cases "number_of_edges lcc = 0")
    case True
    then have "candidates_loop pinv cur rs (e # es) sel h =
        candidates_loop pinv cur rs es (consider_candidate e 0 rs sel) (h2 g')"
      by (simp add: alloc_def g_def[symmetric] g' lcc h2_def)
    then show ?thesis using best_consider_candidate by blast
  next
    case False
    from calculate_Rs_total[OF lcc(2,3), of pinv] show ?thesis
    proof
      assume "calculate_Rs pinv lcc = Inl ValueError"
      with False have "candidates_loop pinv cur rs (e # es) sel h =
          candidates_loop pinv cur rs es sel (h2 g')"
        by (simp add: alloc_def g_def[symmetric] g' lcc h2_def)
      then show ?thesis by blast
    next
      assume "\<exists>r. calculate_Rs pinv lcc = Inr r"
      then obtain r where "calculate_Rs pinv lcc = Inr r" by blast
      with False have "candidates_loop pinv cur rs (e # es) sel h =
          candidates_loop pinv cur rs es (consider_candidate e r rs sel) (h2 g')"
        by (simp add: alloc_def g_def[symmetric] g' lcc h2_def)
      then show ?thesis using best_consider_candidate by blast
    qed
  qed
  then obtain sel1 where
    s1: "candidates_loop pinv cur rs (e # es) sel h = candidates_loop pinv cur rs es sel1 (h2 g')"
    and b1: "best_edge_to_remove sel1 = best_edge_to_remove sel \<or> best_edge_to_remove sel1 = Some e"
    by blast
  from Cons.IH[OF pre, of sel1] obtain sel' h' where
    r: "candidates_loop pinv cur rs es sel1 (h2 g') = Inr (sel', h')"
    "length (h2 g') \<le> length h'" "\<forall>a<length (h2 g'). h' ! a = h2 g' ! a"
    "best_edge_to_remove sel' = best_edge_to_remove sel1 \<or>
       (\<exists>e \<in> set es. best_edge_to_remove sel' = Some e)"
    by blast
  have "length h \<le> length h'" using r(2) h2_len by simp
  moreover have "\<forall>a<length h. h' ! a = h ! a" using r(3) h2_frame h2_len by simp
  moreover have "best_edge_to_remove sel' = best_edge_to_remove sel \<or>
       (\<exists>x \<in> set (e # es). best_edge_to_remove sel' = Some x)"
    using r(4) b1 by auto
  ultimately show ?case using s1 r(1) by simp
qed

lemma greedy_inv_step:
  assumes inv: "greedy_inv h0 G cur st"
    and len: "length (heap st) \<le> length h" and frame: "\<forall>a<length (heap st). h ! a = heap st ! a"
    and e: "e \<in> set (edges (heap st ! cur))"
    and g': "remove_edge (fst e) (snd e) (h ! cur) = Inr g'"
  shows "greedy_inv h0 G cur
           (st\<lparr>heap := h[cur := g'], initial_rs := r,
               best_targets := best_targets st @ [e],
               delta_rs_history := delta_rs_history st @ [d],
               graph_at_selection := graph_at_selection st @ [h ! cur]\<rparr>)"
proof -
  from inv have c: "length h0 \<le> cur" "cur < length (heap st)" by (simp_all add: greedy_inv_def)
  have hc: "h ! cur = heap st ! cur" using frame c by simp
  from inv have wf: "wf_alt (h ! cur)" by (simp add: greedy_inv_def hc)
  have e': "(fst e, snd e) \<in> set (edges (h ! cur))" using e by (simp add: hc)
  have wf': "wf_alt g'" by (rule wf_alt_remove_edge[OF wf g'])
  have n': "nodes g' = nodes (h ! cur)" by (rule remove_edge_Inr(1)[OF g'])
  have s': "set (edges g') = set (edges (h ! cur)) - {e}"
    using set_edges_remove_edge[OF wf e' g'] by simp
  from inv have E: "set (edges (h ! cur)) = set (edges (h0 ! G)) - set (best_targets st)"
    by (simp add: greedy_inv_def hc)
  from e E have enew: "e \<notin> set (best_targets st)" "e \<in> set (edges (h0 ! G))"
    by (auto simp: hc)
  have cl: "cur < length h" using c len by simp
  have fr: "\<forall>a<length h0. h[cur := g'] ! a = h0 ! a"
    using inv frame c by (auto simp: greedy_inv_def)
  show ?thesis
    unfolding greedy_inv_def
    using inv c cl wf' n' s' E enew fr
    by (auto simp: greedy_inv_def hc nth_append less_Suc_eq)
qed

lemma greedy_loop_inv:
  assumes "greedy_inv h0 G cur st"
  shows "\<exists>st'. greedy_loop pinv cur k st = Inr st' \<and> greedy_inv h0 G cur st' \<and>
           length (best_targets st') \<le> length (best_targets st) + k"
  using assms
proof (induction k arbitrary: st)
  case 0
  then show ?case by simp
next
  case (Suc k)
  note inv = Suc.prems
  define es where "es = edges (heap st ! cur)"
  define sel0 :: "'a selection" where
    "sel0 = \<lparr>best_edge_to_remove = None, max_delta_rs = NegInf, next_rs = initial_rs st\<rparr>"
  show ?case
  proof (cases "es = []")
    case True
    then show ?thesis using inv by (simp add: es_def Let_def)
  next
    case False
    from inv have c: "cur < length (heap st)" and wf: "wf_alt (heap st ! cur)"
      and ne: "heap st ! cur \<noteq> []"
      by (auto simp: greedy_inv_def nodes_Nil_iff[symmetric])
    from candidates_loop_ok[OF c wf ne, of es pinv "initial_rs st" sel0]
    obtain sel h where
      r: "candidates_loop pinv cur (initial_rs st) es sel0 (heap st) = Inr (sel, h)"
      "length (heap st) \<le> length h" "\<forall>a<length (heap st). h ! a = heap st ! a"
      "best_edge_to_remove sel = best_edge_to_remove sel0 \<or>
         (\<exists>e \<in> set es. best_edge_to_remove sel = Some e)"
      by (auto simp: es_def)
    show ?thesis
    proof (cases "best_edge_to_remove sel")
      case None
      have "greedy_inv h0 G cur (st\<lparr>heap := h\<rparr>)"
        using inv r(2,3) by (auto simp: greedy_inv_def)
      then show ?thesis
        using False None r(1) by (simp add: es_def[symmetric] sel0_def[symmetric] Let_def)
    next
      case (Some e)
      with r(4) have e: "e \<in> set (edges (heap st ! cur))" by (auto simp: sel0_def es_def)
      have hc: "h ! cur = heap st ! cur" using r(3) c by simp
      have "snd e \<in> set (adj (h ! cur) (fst e))"
        using edges_in_graph(1)[OF wf, of "fst e" "snd e"] e by (simp add: hc)
      from remove_edge_succeeds[OF wf[folded hc] this] obtain g' where
        g': "remove_edge (fst e) (snd e) (h ! cur) = Inr g'" by blast
      define st1 where "st1 = st\<lparr>heap := h[cur := g'], initial_rs := next_rs sel,
               best_targets := best_targets st @ [e],
               delta_rs_history := delta_rs_history st @ [max_delta_rs sel],
               graph_at_selection := graph_at_selection st @ [h ! cur]\<rparr>"
      have inv1: "greedy_inv h0 G cur st1"
        unfolding st1_def by (rule greedy_inv_step[OF inv r(2,3) e g'])
      from Suc.IH[OF inv1] obtain st' where
        st': "greedy_loop pinv cur k st1 = Inr st'" "greedy_inv h0 G cur st'"
        "length (best_targets st') \<le> length (best_targets st1) + k" by blast
      have "greedy_loop pinv cur (Suc k) st = greedy_loop pinv cur k st1"
        using False Some r(1) g'
        by (simp add: es_def[symmetric] sel0_def[symmetric] Let_def st1_def)
      then show ?thesis using st' by (auto simp: st1_def)
    qed
  qed
qed

lemma iterations_of_bound:
  "iterations_of num_targets budget \<le>
     nat (case budget of None \<Rightarrow> num_targets | Some b \<Rightarrow> min num_targets \<lfloor>b\<rfloor>)"
proof (cases budget)
  case None
  then show ?thesis by (simp add: iterations_of_def)
next
  case (Some b)
  show ?thesis
  proof (cases "0 \<le> b")
    case True
    then show ?thesis by (simp add: iterations_of_def Some py_int_def)
  next
    case False
    then have "\<lceil>b\<rceil> \<le> 0" by (simp add: ceiling_le_zero)
    then have "min num_targets \<lceil>b\<rceil> \<le> 0" by linarith
    then have "nat (min num_targets \<lceil>b\<rceil>) = 0" by simp
    then show ?thesis using False by (simp add: iterations_of_def Some py_int_def)
  qed
qed

lemma greedy_run:
  assumes "G < length h" "wf_graph (h ! G)" "is_connected (h ! G) = Inr True"
  shows "\<exists>st. find_optimal_targets_greedy pinv h G num_targets budget =
           Inr \<lparr>targets = best_targets st, deltas = delta_rs_history st,
                final_G = length h, final_heap = heap st,
                chosen_from = graph_at_selection st\<rparr> \<and>
         greedy_inv h G (length h) st \<and>
         length (best_targets st) \<le> iterations_of num_targets budget"
proof -
  from assms(2) have wf: "wf_alt (h ! G)" by (simp add: wf_graph_alt)
  define h1 where "h1 = h @ [copy (h ! G)]"
  have cur: "h1 ! length h = copy (h ! G)" by (simp add: h1_def)
  have wfc: "wf_graph (copy (h ! G))" using wf by (simp add: wf_graph_alt copy_props)
  have "is_connected (copy (h ! G)) = Inr True" using wf assms(3) by (simp add: is_connected_copy)
  from calculate_Rs_spec[OF wfc this, of pinv] obtain rs0 where
    rs0: "calculate_Rs pinv (h1 ! length h) = Inr rs0" by (simp add: cur)
  define st0 :: "'a greedy_state" where
    "st0 = \<lparr>heap = h1, initial_rs = rs0, best_targets = [],
            delta_rs_history = [], graph_at_selection = []\<rparr>"
  have ne: "nodes (h ! G) \<noteq> []"
    using is_connected_Inr_nonempty[OF assms(3)] by (simp add: nodes_Nil_iff)
  have "greedy_inv h G (length h) st0"
    using wf ne assms(1)
    by (simp add: greedy_inv_def st0_def h1_def nth_append copy_props set_edges_copy)
  from greedy_loop_inv[OF this, of pinv "iterations_of num_targets budget"] obtain st where
    st: "greedy_loop pinv (length h) (iterations_of num_targets budget) st0 = Inr st"
    "greedy_inv h G (length h) st"
    "length (best_targets st) \<le> length (best_targets st0) + iterations_of num_targets budget"
    by blast
  have "find_optimal_targets_greedy pinv h G num_targets budget =
           Inr \<lparr>targets = best_targets st, deltas = delta_rs_history st,
                final_G = length h, final_heap = heap st,
                chosen_from = graph_at_selection st\<rparr>"
    using assms(3) rs0 st(1)
    by (simp add: find_optimal_targets_greedy_def bind_err_def alloc_def h1_def[symmetric]
        st0_def[symmetric])
  then show ?thesis using st(2,3) by (auto simp: st0_def)
qed

section \<open>The greedy search: claims\<close>

text \<open>
  C3. On a connected input graph the greedy search returns, and the number of its targets
  is at most \<open>min(num_targets, floor(budget))\<close>, read as a count, or at most
  \<open>num_targets\<close> without a budget. Each target is an edge of the working graph it was
  chosen from, and no edge is listed twice, in either direction.
\<close>

theorem greedy_targets_bounded:
  assumes "G < length h" "wf_graph (h ! G)" "is_connected (h ! G) = Inr True"
  shows "\<exists>r. find_optimal_targets_greedy pinv h G num_targets budget = Inr r \<and>
     length (targets r) \<le>
       nat (case budget of None \<Rightarrow> num_targets | Some b \<Rightarrow> min num_targets \<lfloor>b\<rfloor>) \<and>
     length (chosen_from r) = length (targets r) \<and>
     (\<forall>i<length (targets r). targets r ! i \<in> set (edges (chosen_from r ! i))) \<and>
     distinct (targets r) \<and>
     (\<forall>(u, v) \<in> set (targets r). u \<noteq> v \<longrightarrow> (v, u) \<notin> set (targets r))"
proof -
  from greedy_run[OF assms, of pinv num_targets budget] obtain st where
    r: "find_optimal_targets_greedy pinv h G num_targets budget =
           Inr \<lparr>targets = best_targets st, deltas = delta_rs_history st,
                final_G = length h, final_heap = heap st,
                chosen_from = graph_at_selection st\<rparr>"
    and inv: "greedy_inv h G (length h) st"
    and n: "length (best_targets st) \<le> iterations_of num_targets budget"
    by blast
  from assms(2) have wf: "wf_alt (h ! G)" by (simp add: wf_graph_alt)
  from inv have sub: "set (best_targets st) \<subseteq> set (edges (h ! G))"
    by (simp add: greedy_inv_def)
  have o: "\<forall>(u, v) \<in> set (best_targets st). u \<noteq> v \<longrightarrow> (v, u) \<notin> set (best_targets st)"
    using sub edges_oriented[OF wf] by blast
  have "length (best_targets st) \<le>
       nat (case budget of None \<Rightarrow> num_targets | Some b \<Rightarrow> min num_targets \<lfloor>b\<rfloor>)"
    using n iterations_of_bound[of num_targets budget] by linarith
  moreover from inv have "length (graph_at_selection st) = length (best_targets st)"
    "\<forall>i<length (best_targets st). best_targets st ! i \<in> set (edges (graph_at_selection st ! i))"
    "distinct (best_targets st)"
    unfolding greedy_inv_def by blast+
  ultimately show ?thesis using r o by simp
qed

theorem greedy_targets_bounded_witness:
  "0 < length [square4] \<and> wf_graph ([square4] ! 0) \<and> is_connected ([square4] ! 0) = Inr True \<and>
   (\<exists>r. find_optimal_targets_greedy pinv_same [square4] 0 2 (Some (3 / 2)) = Inr r \<and>
      length (targets r) \<le> 1 \<and>
      (\<forall>i<length (targets r). targets r ! i \<in> set (edges (chosen_from r ! i))) \<and>
      distinct (targets r))"
proof -
  have h: "0 < length [square4]" "wf_graph ([square4] ! 0)"
    "is_connected ([square4] ! 0) = Inr True"
    by (simp_all add: wf_square4 connected_square4)
  have "nat (min 2 \<lfloor>3 / 2 :: real\<rfloor>) = 1" by simp
  with greedy_targets_bounded[OF h, of pinv_same 2 "Some (3 / 2)"] h show ?thesis
    by auto
qed

text \<open>
  C9. The graph returned by the greedy search has the nodes of the input graph, in the
  same order; its edges are the edges of the input graph without the returned targets,
  all of which were edges of the input; and the history of differences is as long as the
  list of targets.
\<close>

theorem greedy_final_graph:
  assumes "G < length h" "wf_graph (h ! G)" "is_connected (h ! G) = Inr True"
  shows "\<exists>r. find_optimal_targets_greedy pinv h G num_targets budget = Inr r \<and>
     nodes (final_heap r ! final_G r) = nodes (h ! G) \<and>
     set (edges (final_heap r ! final_G r)) = set (edges (h ! G)) - set (targets r) \<and>
     set (targets r) \<subseteq> set (edges (h ! G)) \<and>
     length (deltas r) = length (targets r)"
proof -
  from greedy_run[OF assms, of pinv num_targets budget] obtain st where
    r: "find_optimal_targets_greedy pinv h G num_targets budget =
           Inr \<lparr>targets = best_targets st, deltas = delta_rs_history st,
                final_G = length h, final_heap = heap st,
                chosen_from = graph_at_selection st\<rparr>"
    and inv: "greedy_inv h G (length h) st"
    by blast
  then show ?thesis by (simp add: greedy_inv_def)
qed

theorem greedy_final_graph_witness:
  "0 < length [square4] \<and> wf_graph ([square4] ! 0) \<and> is_connected ([square4] ! 0) = Inr True \<and>
   (\<exists>r. find_optimal_targets_greedy pinv_same [square4] 0 2 None = Inr r \<and>
      nodes (final_heap r ! final_G r) = [0, 1, 2, 3] \<and>
      set (edges (final_heap r ! final_G r)) = {(0, 1), (0, 3), (1, 2), (2, 3)} - set (targets r) \<and>
      length (deltas r) = length (targets r))"
proof -
  have h: "0 < length [square4]" "wf_graph ([square4] ! 0)"
    "is_connected ([square4] ! 0) = Inr True"
    by (simp_all add: wf_square4 connected_square4)
  have e: "edges square4 = [(0, 1), (0, 3), (1, 2), (2, 3)]" "nodes square4 = [0, 1, 2, 3]"
    by (simp_all add: edges_def nodes_def square4_def)
  from greedy_final_graph[OF h, of pinv_same 2 None] h show ?thesis
    by (auto simp: e)
qed

section \<open>Properties of the rewiring optimiser\<close>

lemma set_adj_edge_rel: "set (adj g w) = {z. (w, z) \<in> edge_rel g}"
  by (simp add: edge_rel_def)

lemma edge_rel_add_edge: "edge_rel (add_edge u v g) = edge_rel g \<union> {(u, v), (v, u)}"
  by (auto simp: edge_rel_def set_adj_add_edge split: if_splits)

lemma edge_rel_remove_edge:
  assumes "wf_alt g" "remove_edge u v g = Inr g'"
  shows "edge_rel g' = edge_rel g - {(u, v), (v, u)}"
  by (auto simp: edge_rel_def set_adj_remove_edge[OF assms] split: if_splits)

lemma degree_add_edge:
  assumes "u \<noteq> v" "v \<notin> set (adj g u)" "u \<notin> set (adj g v)"
  shows "degree (add_edge u v g) n = degree g n + (if n = u \<or> n = v then 1 else 0)"
  using assms by (auto simp: degree_def adj_add_edge add_nbr_def)

lemma degree_remove_edge:
  assumes "wf_alt g" "remove_edge u v g = Inr g'" "u \<noteq> v"
  shows "degree g' n + (if n = u \<or> n = v then 1 else 0) = degree g n"
proof -
  note r = remove_edge_Inr[OF assms(2)]
  from assms(1) r(2) have vu: "u \<in> set (adj g v)" by (simp add: wf_alt_def)
  from assms(1) have d: "\<And>w. distinct (adj g w)" by (simp add: wf_alt_def)
  have l: "Suc (length (remove1 z xs)) = length xs" if "z \<in> set xs" for z and xs :: "'a list"
    using that by (simp only: length_remove1 if_True) (cases xs; simp)
  show ?thesis
    using assms(3) r(2) vu d l[OF r(2)] l[OF vu]
    by (auto simp: degree_def r(3))
qed

lemma rewire_ok:
  assumes wf: "wf_alt g"
    and old: "distinct [a, b, c, d]" "b \<in> set (adj g a)" "d \<in> set (adj g c)"
    and new: "distinct [p, q, r, s]" "set [p, q, r, s] = set [a, b, c, d]"
      "q \<notin> set (adj g p)" "s \<notin> set (adj g r)"
  shows "\<exists>g'. bind_err (remove_edge a b g) (\<lambda>g1. bind_err (remove_edge c d g1) (\<lambda>g2.
                 Inr (add_edge r s (add_edge p q g2)))) = Inr g' \<and>
           wf_alt g' \<and> nodes g' = nodes g \<and> (\<forall>n. degree g' n = degree g n) \<and>
           edge_rel g' = edge_rel g - {(a, b), (b, a), (c, d), (d, c)}
                           \<union> {(p, q), (q, p), (r, s), (s, r)}"
proof -
  from remove_edge_succeeds[OF wf old(2)] obtain g1 where g1: "remove_edge a b g = Inr g1"
    by blast
  have wf1: "wf_alt g1" by (rule wf_alt_remove_edge[OF wf g1])
  have E1: "edge_rel g1 = edge_rel g - {(a, b), (b, a)}" by (rule edge_rel_remove_edge[OF wf g1])
  have n1: "nodes g1 = nodes g" by (rule remove_edge_Inr(1)[OF g1])
  have "(c, d) \<in> edge_rel g" using old(3) by (simp add: edge_rel_def)
  then have "(c, d) \<in> edge_rel g1" unfolding E1 using old(1) by auto
  then have "d \<in> set (adj g1 c)" by (simp add: edge_rel_def)
  from remove_edge_succeeds[OF wf1 this] obtain g2 where g2: "remove_edge c d g1 = Inr g2"
    by blast
  have wf2: "wf_alt g2" by (rule wf_alt_remove_edge[OF wf1 g2])
  have E2: "edge_rel g2 = edge_rel g - {(a, b), (b, a), (c, d), (d, c)}"
    using edge_rel_remove_edge[OF wf1 g2] E1 by auto
  have n2: "nodes g2 = nodes g" using remove_edge_Inr(1)[OF g2] n1 by simp
  have sym: "\<And>h x y. wf_alt h \<Longrightarrow> (x, y) \<in> edge_rel h \<Longrightarrow> (y, x) \<in> edge_rel h"
    by (auto simp: edge_rel_def wf_alt_def)
  have inn: "\<And>x y. (x, y) \<in> edge_rel g \<Longrightarrow> x \<in> set (nodes g)"
    by (auto simp: edge_rel_def dest: adj_in_nodes)
  have abcd: "a \<in> set (nodes g)" "b \<in> set (nodes g)" "c \<in> set (nodes g)" "d \<in> set (nodes g)"
    using old wf by (auto simp: wf_alt_def dest: adj_in_nodes)
  with new(2) have pqrs: "p \<in> set (nodes g)" "q \<in> set (nodes g)" "r \<in> set (nodes g)"
    "s \<in> set (nodes g)" by auto
  have npq: "(p, q) \<notin> edge_rel g" "(q, p) \<notin> edge_rel g"
    using new(3) sym[OF wf, of q p] by (auto simp: edge_rel_def)
  have nrs: "(r, s) \<notin> edge_rel g" "(s, r) \<notin> edge_rel g"
    using new(4) sym[OF wf, of s r] by (auto simp: edge_rel_def)
  have pq2: "(p, q) \<notin> edge_rel g2" "(q, p) \<notin> edge_rel g2"
    unfolding E2 using npq by blast+
  define g3 where "g3 = add_edge p q g2"
  have wf3: "wf_alt g3" unfolding g3_def by (rule wf_alt_add_edge[OF wf2])
  have E3: "edge_rel g3 = edge_rel g2 \<union> {(p, q), (q, p)}" by (simp add: g3_def edge_rel_add_edge)
  have n3: "nodes g3 = nodes g" using pqrs by (simp add: g3_def nodes_add_edge_in n2)
  have rs3: "(r, s) \<notin> edge_rel g3" "(s, r) \<notin> edge_rel g3"
    unfolding E3 E2 using nrs new(1) by auto
  define g4 where "g4 = add_edge r s g3"
  have wf4: "wf_alt g4" unfolding g4_def by (rule wf_alt_add_edge[OF wf3])
  have E4: "edge_rel g4 = edge_rel g3 \<union> {(r, s), (s, r)}" by (simp add: g4_def edge_rel_add_edge)
  have n4: "nodes g4 = nodes g" using pqrs by (simp add: g4_def nodes_add_edge_in n3)
  have deg: "degree g4 n = degree g n" for n
  proof -
    have d1: "degree g1 n + (if n = a \<or> n = b then 1 else 0) = degree g n"
      using degree_remove_edge[OF wf g1] old(1) by simp
    have d2: "degree g2 n + (if n = c \<or> n = d then 1 else 0) = degree g1 n"
      using degree_remove_edge[OF wf1 g2] old(1) by simp
    have d3: "degree g3 n = degree g2 n + (if n = p \<or> n = q then 1 else 0)"
      unfolding g3_def using pq2 new(1) by (intro degree_add_edge) (auto simp: edge_rel_def)
    have d4: "degree g4 n = degree g3 n + (if n = r \<or> n = s then 1 else 0)"
      unfolding g4_def using rs3 new(1) by (intro degree_add_edge) (auto simp: edge_rel_def)
    have L: "(if n = a \<or> n = b then 1 else 0) + (if n = c \<or> n = d then 1 else (0::nat)) =
          (if n \<in> set [a, b, c, d] then 1 else 0)"
      using old(1) by auto
    have R: "(if n = p \<or> n = q then 1 else 0) + (if n = r \<or> n = s then 1 else (0::nat)) =
          (if n \<in> set [p, q, r, s] then 1 else 0)"
      using new(1) by auto
    have cnt: "(if n = a \<or> n = b then 1 else 0) + (if n = c \<or> n = d then 1 else (0::nat)) =
          (if n = p \<or> n = q then 1 else 0) + (if n = r \<or> n = s then 1 else 0)"
      unfolding L R new(2) ..
    show ?thesis using d1 d2 d3 d4 cnt by linarith
  qed
  have "bind_err (remove_edge a b g) (\<lambda>g1. bind_err (remove_edge c d g1) (\<lambda>g2.
                 Inr (add_edge r s (add_edge p q g2)))) = Inr g4"
    by (simp add: bind_err_def g1 g2 g4_def g3_def)
  moreover have "edge_rel g4 = edge_rel g - {(a, b), (b, a), (c, d), (d, c)}
                           \<union> {(p, q), (q, p), (r, s), (s, r)}"
    by (auto simp: E4 E3 E2)
  ultimately show ?thesis using wf4 n4 deg by blast
qed

lemma random_sample2_ok:
  assumes "2 \<le> n"
  shows "\<exists>i j. random_sample2 n r = Inr (i, j) \<and> i < n \<and> j < n \<and> i \<noteq> j"
proof -
  define i where "i = fst r mod n"
  define k where "k = snd r mod (n - 1)"
  have i: "i < n" using assms by (simp add: i_def)
  have k: "k < n - 1" using assms by (simp add: k_def)
  have "random_sample2 n r = Inr (i, if k < i then k else Suc k)"
    using assms by (simp add: random_sample2_def Let_def i_def k_def)
  moreover have "(if k < i then k else Suc k) < n" using i k by auto
  moreover have "i \<noteq> (if k < i then k else Suc k)" by auto
  ultimately show ?thesis using i by blast
qed

lemma find_swappable_ok:
  assumes "2 \<le> n" "n = length es"
  shows "\<exists>res d'. find_swappable rnd es n k d = Inr (res, d') \<and>
           (case res of None \<Rightarrow> True
            | Some ((u, v), (x, y)) \<Rightarrow>
                (u, v) \<in> set es \<and> (x, y) \<in> set es \<and> distinct [u, v, x, y])"
proof (induction k arbitrary: d)
  case 0
  show ?case by simp
next
  case (Suc k)
  from random_sample2_ok[OF assms(1), of "rnd d"] obtain i j where
    ij: "random_sample2 n (rnd d) = Inr (i, j)" "i < n" "j < n" by blast
  obtain u v where uv: "es ! i = (u, v)" by (cases "es ! i")
  obtain x y where xy: "es ! j = (x, y)" by (cases "es ! j")
  have mem: "(u, v) \<in> set es" "(x, y) \<in> set es"
    using ij(2,3) assms(2) uv xy by (metis nth_mem)+
  have eq: "(length (remdups [u, v, x, y]) = 4) = distinct [u, v, x, y]"
    by (auto split: if_splits)
  show ?case
  proof (cases "distinct [u, v, x, y]")
    case True
    then have "find_swappable rnd es n (Suc k) d = Inr (Some ((u, v), (x, y)), Suc d)"
      using ij assms(2) uv xy
      by (simp add: list_get_def eq del: remdups.simps distinct.simps)
    then show ?thesis using mem True by simp
  next
    case False
    then have "find_swappable rnd es n (Suc k) d = find_swappable rnd es n k (Suc d)"
      using ij assms(2) uv xy
      by (simp add: list_get_def eq del: remdups.simps distinct.simps)
    then show ?thesis using Suc.IH[of "Suc d"] by simp
  qed
qed

lemma sorted_wrt_less_last:
  "sorted_wrt (<) xs \<Longrightarrow> x \<in> set xs \<Longrightarrow> (x :: real) \<le> last xs"
  by (induction xs) (auto simp: less_imp_le)

lemma sorted_wrt_less_snoc:
  assumes "sorted_wrt (<) xs" "xs \<noteq> []" "last xs < (y :: real)"
  shows "sorted_wrt (<) (xs @ [y])"
  using assms sorted_wrt_less_last[OF assms(1)] by (fastforce simp: sorted_wrt_append)

lemma edge_rel_cong:
  assumes "edge_rel g' = edge_rel g"
  shows "set (adj g' w) = set (adj g w)"
  by (simp add: set_adj_edge_rel assms)

lemma edges_subset_edge_rel: "wf_alt g \<Longrightarrow> set (edges g) \<subseteq> edge_rel g"
  using edges_in_graph(1) by (fastforce simp: edge_rel_def)

lemma apply_swap_ok:
  assumes wf: "wf_alt g" and d: "distinct [u, v, x, y]"
    and old: "(u, v) \<in> edge_rel g" "(x, y) \<in> edge_rel g"
    and new: "\<not> has_edge g u y" "\<not> has_edge g v x"
  shows "\<exists>g1. apply_swap u v x y g = Inr g1 \<and> wf_alt g1 \<and> nodes g1 = nodes g \<and>
           (\<forall>n. degree g1 n = degree g n) \<and>
           edge_rel g1 = edge_rel g - {(u, v), (v, u), (x, y), (y, x)}
                           \<union> {(u, y), (y, u), (v, x), (x, v)}"
proof -
  have 1: "distinct [u, y, v, x]" "set [u, y, v, x] = set [u, v, x, y]" using d by auto
  from rewire_ok[OF wf d _ _ 1, of] old new show ?thesis
    unfolding apply_swap_def by (simp add: edge_rel_def has_edge_def)
qed

lemma revert_swap_ok:
  assumes wf: "wf_alt g" and wf1: "wf_alt g1" and d: "distinct [u, v, x, y]"
    and old: "(u, v) \<in> edge_rel g" "(x, y) \<in> edge_rel g"
    and new: "\<not> has_edge g u y" "\<not> has_edge g v x"
    and E1: "edge_rel g1 = edge_rel g - {(u, v), (v, u), (x, y), (y, x)}
                           \<union> {(u, y), (y, u), (v, x), (x, v)}"
  shows "\<exists>g2. revert_swap u v x y g1 = Inr g2 \<and> wf_alt g2 \<and> nodes g2 = nodes g1 \<and>
           (\<forall>n. degree g2 n = degree g1 n) \<and> edge_rel g2 = edge_rel g"
proof -
  have sym: "\<And>a b. (a, b) \<in> edge_rel g \<Longrightarrow> (b, a) \<in> edge_rel g"
    using wf by (auto simp: edge_rel_def wf_alt_def)
  have n: "(u, y) \<notin> edge_rel g" "(y, u) \<notin> edge_rel g" "(v, x) \<notin> edge_rel g" "(x, v) \<notin> edge_rel g"
    using new sym by (auto simp: edge_rel_def has_edge_def)
  have o: "(v, u) \<in> edge_rel g" "(y, x) \<in> edge_rel g" using old sym by blast+
  have 1: "distinct [u, y, v, x]" "distinct [u, v, x, y]" "set [u, v, x, y] = set [u, y, v, x]"
    using d by auto
  have in1: "y \<in> set (adj g1 u)" "x \<in> set (adj g1 v)"
    using E1 by (auto simp: set_adj_edge_rel)
  have out1: "v \<notin> set (adj g1 u)" "y \<notin> set (adj g1 x)"
    using E1 d by (auto simp: set_adj_edge_rel)
  from rewire_ok[OF wf1 1(1) in1 1(2,3) out1] obtain g2 where
    g2: "revert_swap u v x y g1 = Inr g2" "wf_alt g2" "nodes g2 = nodes g1"
    "\<forall>n. degree g2 n = degree g1 n"
    "edge_rel g2 = edge_rel g1 - {(u, y), (y, u), (v, x), (x, v)} \<union> {(u, v), (v, u), (x, y), (y, x)}"
    unfolding revert_swap_def by blast
  have "edge_rel g2 = edge_rel g"
    unfolding g2(5) E1 using n o old by blast
  with g2 show ?thesis by blast
qed

lemma rego_inv_revert:
  assumes inv: "rego_inv h0 G0 G rs0 st"
    and g2: "wf_alt g2" "nodes g2 = nodes (rheap st ! G)"
      "\<forall>n. degree g2 n = degree (rheap st ! G) n" "edge_rel g2 = edge_rel (rheap st ! G)"
  shows "rego_inv h0 G0 G rs0 (st\<lparr>rheap := (rheap st)[G := g2], draws := d\<rparr>)"
proof -
  have "is_connected g2 = is_connected (rheap st ! G)"
    by (rule is_connected_cong[OF g2(2)]) (rule edge_rel_cong[OF g2(4)])
  then show ?thesis
    using inv g2 unfolding rego_inv_def by auto
qed

lemma rego_inv_draws:
  "rego_inv h0 G0 G rs0 st \<Longrightarrow> rego_inv h0 G0 G rs0 (st\<lparr>draws := d\<rparr>)"
  by (simp add: rego_inv_def)

lemma rego_inv_accept:
  assumes inv: "rego_inv h0 G0 G rs0 st"
    and g1: "wf_alt g1" "nodes g1 = nodes (rheap st ! G)"
      "\<forall>n. degree g1 n = degree (rheap st ! G) n" "is_connected g1 = Inr True"
    and better: "current_rs st < new_rs"
  shows "rego_inv h0 G0 G rs0
           (st\<lparr>rheap := (rheap st)[G := g1], current_rs := new_rs,
               rs_history := rs_history st @ [new_rs], edges_list := edges g1,
               n_edges := length (edges g1), accepted_swaps := Suc (accepted_swaps st),
               draws := d\<rparr>)"
proof -
  from inv have h: "sorted_wrt (<) (rs_history st)" "rs_history st \<noteq> []"
    "last (rs_history st) = current_rs st"
    by (simp_all add: rego_inv_def)
  have s: "sorted_wrt (<) (rs_history st @ [new_rs])"
    using sorted_wrt_less_snoc[OF h(1,2)] h(3) better by simp
  show ?thesis
    using inv g1 s h(2) edges_subset_edge_rel[OF g1(1)]
    unfolding rego_inv_def by auto
qed

lemma rego_iteration_inv:
  assumes inv: "rego_inv h0 G0 G rs0 st" and n: "2 \<le> n_edges st"
  shows "\<exists>st'. rego_iteration pinv rnd G st = Inr st' \<and> rego_inv h0 G0 G rs0 st'"
proof -
  define g where "g = rheap st ! G"
  from inv have wf: "wf_alt g" and conn: "is_connected g = Inr True"
    and sub: "set (edges_list st) \<subseteq> edge_rel g" and len: "n_edges st = length (edges_list st)"
    by (simp_all add: rego_inv_def g_def)
  from find_swappable_ok[OF n len, of rnd 100 "draws st"] obtain res d where
    fs: "find_swappable rnd (edges_list st) (n_edges st) 100 (draws st) = Inr (res, d)"
    and pr: "case res of None \<Rightarrow> True
            | Some ((u, v), (x, y)) \<Rightarrow>
                (u, v) \<in> set (edges_list st) \<and> (x, y) \<in> set (edges_list st) \<and>
                distinct [u, v, x, y]"
    by blast
  show ?thesis
  proof (cases res)
    case None
    then have "rego_iteration pinv rnd G st = Inr (st\<lparr>draws := d\<rparr>)"
      by (simp add: rego_iteration_def fs)
    then show ?thesis using rego_inv_draws[OF inv] by simp
  next
    case (Some pair)
    obtain u v x y where pair: "pair = ((u, v), (x, y))" by (cases pair) auto
    from pr Some pair sub have old: "(u, v) \<in> edge_rel g" "(x, y) \<in> edge_rel g"
      and d: "distinct [u, v, x, y]" by auto
    show ?thesis
    proof (cases "has_edge g u y \<or> has_edge g v x")
      case True
      then have "rego_iteration pinv rnd G st = Inr (st\<lparr>draws := d\<rparr>)"
        by (simp add: rego_iteration_def fs Some pair g_def)
      then show ?thesis using rego_inv_draws[OF inv] by simp
    next
      case False
      then have new: "\<not> has_edge g u y" "\<not> has_edge g v x" by simp_all
      from apply_swap_ok[OF wf d old new] obtain g1 where
        g1: "apply_swap u v x y g = Inr g1" "wf_alt g1" "nodes g1 = nodes g"
        "\<forall>n. degree g1 n = degree g n"
        "edge_rel g1 = edge_rel g - {(u, v), (v, u), (x, y), (y, x)}
                           \<union> {(u, y), (y, u), (v, x), (x, v)}"
        by blast
      from revert_swap_ok[OF wf g1(2) d old new g1(5)] obtain g2 where
        g2: "revert_swap u v x y g1 = Inr g2" "wf_alt g2" "nodes g2 = nodes g1"
        "\<forall>n. degree g2 n = degree g1 n" "edge_rel g2 = edge_rel g"
        by blast
      define st_rev where "st_rev = st\<lparr>rheap := (rheap st)[G := g2], draws := d\<rparr>"
      have inv_rev: "rego_inv h0 G0 G rs0 st_rev"
        unfolding st_rev_def
        using g1(3,4) g2 by (intro rego_inv_revert[OF inv]) (simp_all add: g_def)
      have ne: "g1 \<noteq> []"
        using is_connected_Inr_nonempty[OF conn] g1(3) by (simp add: nodes_Nil_iff[symmetric])
      from is_connected_nonempty[OF ne] obtain c where c: "is_connected g1 = Inr c" by blast
      show ?thesis
      proof (cases c)
        case cFalse: False
        then have "rego_iteration pinv rnd G st = Inr st_rev"
          using False
          by (simp add: rego_iteration_def fs Some pair g_def[symmetric] g1(1) c g2(1)
              bind_err_def st_rev_def)
        then show ?thesis using inv_rev by simp
      next
        case True
        have rs: "calculate_Rs pinv g1 = Inr (rs_spec pinv g1)"
          using calculate_Rs_spec[of g1 pinv] g1(2) c True by (simp add: wf_graph_alt)
        show ?thesis
        proof (cases "current_rs st < rs_spec pinv g1")
          case better: True
          define st_acc where "st_acc = st\<lparr>rheap := (rheap st)[G := g1],
               current_rs := rs_spec pinv g1,
               rs_history := rs_history st @ [rs_spec pinv g1], edges_list := edges g1,
               n_edges := length (edges g1), accepted_swaps := Suc (accepted_swaps st),
               draws := d\<rparr>"
          have "rego_inv h0 G0 G rs0 st_acc"
            unfolding st_acc_def
            using g1(2,3,4) c True better
            by (intro rego_inv_accept[OF inv]) (simp_all add: g_def)
          moreover have "rego_iteration pinv rnd G st = Inr st_acc"
            using False True better
            by (simp add: rego_iteration_def fs Some pair g_def[symmetric] g1(1) c rs
                bind_err_def st_acc_def)
          ultimately show ?thesis by simp
        next
          case worse: False
          have "rego_iteration pinv rnd G st = Inr st_rev"
            using False True worse
            by (simp add: rego_iteration_def fs Some pair g_def[symmetric] g1(1) c rs g2(1)
                bind_err_def st_rev_def)
          then show ?thesis using inv_rev by simp
        qed
      qed
    qed
  qed
qed

lemma rego_loop_inv:
  assumes "rego_inv h0 G0 G rs0 st"
  shows "\<exists>st'. rego_loop pinv rnd G k st = Inr st' \<and> rego_inv h0 G0 G rs0 st'"
  using assms
proof (induction k arbitrary: st)
  case 0
  then show ?case by simp
next
  case (Suc k)
  show ?case
  proof (cases "n_edges st < 2")
    case True
    then show ?thesis using Suc.prems by simp
  next
    case False
    then have "2 \<le> n_edges st" by simp
    from rego_iteration_inv[OF Suc.prems this, of pinv rnd] obtain st1 where
      st1: "rego_iteration pinv rnd G st = Inr st1" "rego_inv h0 G0 G rs0 st1" by blast
    from Suc.IH[OF st1(2)] show ?thesis using False st1(1) by simp
  qed
qed

lemma rego_run:
  assumes "G0 < length h" "wf_graph (h ! G0)" "is_connected (h ! G0) = Inr True"
  shows "\<exists>r. rego_optimizer pinv rnd h G0 n_iter = Inr r \<and>
           G_optimized r = length h \<and> length h < length (result_heap r) \<and>
           (\<forall>a<length h. result_heap r ! a = h ! a) \<and>
           nodes (result_heap r ! G_optimized r) = nodes (h ! G0) \<and>
           (\<forall>n. degree (result_heap r ! G_optimized r) n = degree (h ! G0) n) \<and>
           is_connected (result_heap r ! G_optimized r) = Inr True \<and>
           history r \<noteq> [] \<and> calculate_Rs pinv (h ! G0) = Inr (hd (history r)) \<and>
           sorted_wrt (<) (history r) \<and> length (history r) = Suc (accepted r)"
proof -
  from assms(2) have wf: "wf_alt (h ! G0)" by (simp add: wf_graph_alt)
  define h1 where "h1 = h @ [deepcopy (h ! G0)]"
  define rs0 where "rs0 = rs_spec pinv (h ! G0)"
  have cur: "h1 ! length h = h ! G0" by (simp add: h1_def deepcopy_def)
  have rs: "calculate_Rs pinv (h ! G0) = Inr rs0"
    unfolding rs0_def by (rule calculate_Rs_spec[OF assms(2,3)])
  have fr: "\<forall>a<length h. h1 ! a = h ! a" by (simp add: h1_def nth_append)
  show ?thesis
  proof (cases "length (edges (h ! G0)) < 2")
    case True
    then have "rego_optimizer pinv rnd h G0 n_iter =
        Inr \<lparr>G_optimized = length h, history = [rs0], result_heap = h1, accepted = 0\<rparr>"
      using assms(3) rs
      by (simp add: rego_optimizer_def bind_err_def alloc_def h1_def[symmetric] cur)
    then show ?thesis using assms(3) rs fr by (simp add: cur) (simp add: h1_def)
  next
    case False
    define st0 :: "'a rego_state" where
      "st0 = \<lparr>rheap = h1, current_rs = rs0, rs_history = [rs0],
              edges_list = edges (h ! G0), n_edges = length (edges (h ! G0)),
              accepted_swaps = 0, draws = 0\<rparr>"
    have "rego_inv h G0 (length h) rs0 st0"
      using wf assms(3) fr edges_subset_edge_rel[OF wf]
      by (simp add: rego_inv_def st0_def cur) (simp add: h1_def)
    from rego_loop_inv[OF this, of pinv rnd "nat n_iter"] obtain st where
      st: "rego_loop pinv rnd (length h) (nat n_iter) st0 = Inr st"
      "rego_inv h G0 (length h) rs0 st" by blast
    have "rego_optimizer pinv rnd h G0 n_iter =
        Inr \<lparr>G_optimized = length h, history = rs_history st, result_heap = rheap st,
             accepted = accepted_swaps st\<rparr>"
      using assms(3) rs False st(1)
      by (simp add: rego_optimizer_def bind_err_def alloc_def h1_def[symmetric] cur
          st0_def[symmetric])
    then show ?thesis using st(2) rs by (simp add: rego_inv_def)
  qed
qed

section \<open>The rewiring optimiser and the caller's graph: claims\<close>

lemma square4_inputs:
  "0 < length [square4]" "wf_graph ([square4] ! 0)" "is_connected ([square4] ! 0) = Inr True"
  by (simp_all add: wf_square4 connected_square4)

text \<open>
  C4. On a connected input graph the optimiser returns, and its history is strictly
  increasing, hence never decreasing; it starts with the metric of the input graph; and
  it holds one entry for each accepted swap beside that first one.
\<close>

theorem rego_history_increasing:
  assumes "G < length h" "wf_graph (h ! G)" "is_connected (h ! G) = Inr True"
  shows "\<exists>r. rego_optimizer pinv rnd h G n_iter = Inr r \<and>
     sorted_wrt (<) (history r) \<and> sorted_wrt (\<le>) (history r) \<and>
     history r \<noteq> [] \<and> calculate_Rs pinv (h ! G) = Inr (hd (history r)) \<and>
     length (history r) = Suc (accepted r)"
proof -
  from rego_run[OF assms, of pinv rnd n_iter] obtain r where
    r: "rego_optimizer pinv rnd h G n_iter = Inr r" "history r \<noteq> []"
    "calculate_Rs pinv (h ! G) = Inr (hd (history r))" "sorted_wrt (<) (history r)"
    "length (history r) = Suc (accepted r)" by blast
  have "sorted_wrt (\<le>) (history r)"
    by (rule sorted_wrt_mono_rel[OF _ r(4)]) simp
  with r show ?thesis by blast
qed

theorem rego_history_increasing_witness:
  "0 < length [square4] \<and> wf_graph ([square4] ! 0) \<and> is_connected ([square4] ! 0) = Inr True \<and>
   (\<exists>r. rego_optimizer pinv_same rnd_fixed [square4] 0 3 = Inr r \<and>
      sorted_wrt (<) (history r) \<and> history r \<noteq> [] \<and>
      calculate_Rs pinv_same square4 = Inr (hd (history r)) \<and>
      length (history r) = Suc (accepted r))"
  using rego_history_increasing[OF square4_inputs, of pinv_same rnd_fixed 3] square4_inputs
  by auto

text \<open>
  C5. On a connected input graph, for any number of iterations, every node has in the
  returned working graph the degree it has in the input graph.
\<close>

theorem rego_preserves_degrees:
  assumes "G < length h" "wf_graph (h ! G)" "is_connected (h ! G) = Inr True"
  shows "\<exists>r. rego_optimizer pinv rnd h G n_iter = Inr r \<and>
     nodes (result_heap r ! G_optimized r) = nodes (h ! G) \<and>
     (\<forall>n. degree (result_heap r ! G_optimized r) n = degree (h ! G) n)"
  using rego_run[OF assms, of pinv rnd n_iter] by blast

theorem rego_preserves_degrees_witness:
  "0 < length [square4] \<and> wf_graph ([square4] ! 0) \<and> is_connected ([square4] ! 0) = Inr True \<and>
   (\<exists>r. rego_optimizer pinv_same rnd_fixed [square4] 0 3 = Inr r \<and>
      map (degree (result_heap r ! G_optimized r)) [0, 1, 2, 3] = [2, 2, 2, 2])"
proof -
  have d: "map (degree square4) [0, 1, 2, 3] = [2, 2, 2, 2]"
    by (simp add: degree_def adj_def square4_def)
  from rego_preserves_degrees[OF square4_inputs, of pinv_same rnd_fixed 3] d square4_inputs
  show ?thesis by auto
qed

text \<open>
  C6. On a connected input graph, for any number of iterations, the working graph the
  optimiser returns is connected.
\<close>

theorem rego_stays_connected:
  assumes "G < length h" "wf_graph (h ! G)" "is_connected (h ! G) = Inr True"
  shows "\<exists>r. rego_optimizer pinv rnd h G n_iter = Inr r \<and>
     is_connected (result_heap r ! G_optimized r) = Inr True"
  using rego_run[OF assms, of pinv rnd n_iter] by blast

theorem rego_stays_connected_witness:
  "0 < length [square4] \<and> wf_graph ([square4] ! 0) \<and> is_connected ([square4] ! 0) = Inr True \<and>
   (\<exists>r. rego_optimizer pinv_same rnd_fixed [square4] 0 3 = Inr r \<and>
      is_connected (result_heap r ! G_optimized r) = Inr True)"
  using rego_stays_connected[OF square4_inputs, of pinv_same rnd_fixed 3] square4_inputs
  by auto

text \<open>
  C7. On a connected input graph both searches return, and in the store they leave the
  graph at the caller's address, like every graph the caller held, is the one that was
  there before the call; the graph they return lives at another address.
\<close>

theorem searches_leave_input_unchanged:
  assumes "G < length h" "wf_graph (h ! G)" "is_connected (h ! G) = Inr True"
  shows "(\<exists>r. find_optimal_targets_greedy pinv h G num_targets budget = Inr r \<and>
            final_heap r ! G = h ! G \<and> final_G r \<noteq> G \<and>
            (\<forall>a<length h. final_heap r ! a = h ! a)) \<and>
         (\<exists>r. rego_optimizer pinv rnd h G n_iter = Inr r \<and>
            result_heap r ! G = h ! G \<and> G_optimized r \<noteq> G \<and>
            (\<forall>a<length h. result_heap r ! a = h ! a))"
proof
  from greedy_run[OF assms, of pinv num_targets budget] obtain st where
    "find_optimal_targets_greedy pinv h G num_targets budget =
           Inr \<lparr>targets = best_targets st, deltas = delta_rs_history st,
                final_G = length h, final_heap = heap st,
                chosen_from = graph_at_selection st\<rparr>"
    "greedy_inv h G (length h) st" by blast
  then show "\<exists>r. find_optimal_targets_greedy pinv h G num_targets budget = Inr r \<and>
            final_heap r ! G = h ! G \<and> final_G r \<noteq> G \<and>
            (\<forall>a<length h. final_heap r ! a = h ! a)"
    using assms(1) by (auto simp: greedy_inv_def)
next
  from rego_run[OF assms, of pinv rnd n_iter] obtain r where
    "rego_optimizer pinv rnd h G n_iter = Inr r" "G_optimized r = length h"
    "\<forall>a<length h. result_heap r ! a = h ! a" by blast
  then show "\<exists>r. rego_optimizer pinv rnd h G n_iter = Inr r \<and>
            result_heap r ! G = h ! G \<and> G_optimized r \<noteq> G \<and>
            (\<forall>a<length h. result_heap r ! a = h ! a)"
    using assms(1) by auto
qed

theorem searches_leave_input_unchanged_witness:
  "0 < length [square4] \<and> wf_graph ([square4] ! 0) \<and> is_connected ([square4] ! 0) = Inr True \<and>
   (\<exists>r. find_optimal_targets_greedy pinv_same [square4] 0 2 None = Inr r \<and>
      final_heap r ! 0 = square4 \<and> final_G r \<noteq> 0) \<and>
   (\<exists>r. rego_optimizer pinv_same rnd_fixed [square4] 0 3 = Inr r \<and>
      result_heap r ! 0 = square4 \<and> G_optimized r \<noteq> 0)"
  using searches_leave_input_unchanged[OF square4_inputs, of pinv_same 2 None rnd_fixed 3]
    square4_inputs
  by auto

section \<open>The breadth-first search reaches what is reachable\<close>

text \<open>The levels counted by \<open>plain_bfs\<close> suffice: on a well-formed graph it returns
  the nodes reachable from the source, so \<open>is_connected\<close> says that every node is
  reachable from the first.\<close>

lemma bfs_levels_funpow: "bfs_levels k g S = (bfs_step g ^^ k) S"
  by (induction k arbitrary: S) (simp_all add: bfs_step_def funpow_swap1)

lemma bfs_step_edge_rel: "bfs_step g S = S \<union> edge_rel g `` S"
  by (auto simp: bfs_step_def edge_rel_def)

lemma bfs_step_nodes:
  assumes "wf_alt g" "S \<subseteq> set (nodes g)"
  shows "bfs_step g S \<subseteq> set (nodes g)"
  using assms by (auto simp: bfs_step_def wf_alt_def)

lemma funpow_bfs_step_nodes:
  assumes "wf_alt g" "S \<subseteq> set (nodes g)"
  shows "(bfs_step g ^^ k) S \<subseteq> set (nodes g)"
  by (induction k) (simp_all add: assms bfs_step_nodes)

lemma funpow_bfs_step_grows:
  assumes "wf_alt g" "S \<subseteq> set (nodes g)"
  shows "bfs_step g ((bfs_step g ^^ k) S) = (bfs_step g ^^ k) S \<or>
         card S + Suc k \<le> card ((bfs_step g ^^ Suc k) S)"
proof (induction k)
  case 0
  have fin: "finite (bfs_step g S)"
    using bfs_step_nodes[OF assms] by (rule finite_subset) simp
  have "S \<subseteq> bfs_step g S" by (auto simp: bfs_step_def)
  then consider "bfs_step g S = S" | "S \<subset> bfs_step g S" by blast
  then show ?case
  proof cases
    case 1
    then show ?thesis by simp
  next
    case 2
    then have "card S < card (bfs_step g S)" by (rule psubset_card_mono[OF fin])
    then show ?thesis by simp
  qed
next
  case (Suc k)
  define T where "T = (bfs_step g ^^ Suc k) S"
  have Tn: "T \<subseteq> set (nodes g)" unfolding T_def by (rule funpow_bfs_step_nodes[OF assms])
  have fin: "finite (bfs_step g T)"
    using bfs_step_nodes[OF assms(1) Tn] by (rule finite_subset) simp
  have "T \<subseteq> bfs_step g T" by (auto simp: bfs_step_def)
  then consider "bfs_step g T = T" | "T \<subset> bfs_step g T" by blast
  then show ?case
  proof cases
    case 1
    then show ?thesis by (simp add: T_def)
  next
    case 2
    then have c: "card T < card (bfs_step g T)" by (rule psubset_card_mono[OF fin])
    from Suc show ?thesis
    proof
      assume "bfs_step g ((bfs_step g ^^ k) S) = (bfs_step g ^^ k) S"
      then have "bfs_step g T = T" by (simp add: T_def)
      with 2 show ?thesis by simp
    next
      assume "card S + Suc k \<le> card ((bfs_step g ^^ Suc k) S)"
      with c show ?thesis by (simp add: T_def)
    qed
  qed
qed

lemma plain_bfs_closed:
  assumes "wf_alt g" "s \<in> set (nodes g)"
  shows "bfs_step g (plain_bfs g s) = plain_bfs g s"
proof -
  have sub: "{s} \<subseteq> set (nodes g)" using assms(2) by simp
  have "card (set (nodes g)) = length (nodes g)"
    by (rule distinct_card) (use assms(1) in \<open>simp add: wf_alt_def\<close>)
  then have n: "card (set (nodes g)) = length g" by (simp add: nodes_def)
  have "card ((bfs_step g ^^ Suc (length g)) {s}) \<le> length g"
    using card_mono[OF _ funpow_bfs_step_nodes[OF assms(1) sub, of "Suc (length g)"]] n by simp
  with funpow_bfs_step_grows[OF assms(1) sub, of "length g"] show ?thesis
    by (simp add: plain_bfs_def bfs_levels_funpow)
qed

lemma plain_bfs_reachable:
  assumes "wf_alt g" "s \<in> set (nodes g)"
  shows "plain_bfs g s = {v. (s, v) \<in> (edge_rel g)\<^sup>*}"
proof
  have "(bfs_step g ^^ k) {s} \<subseteq> {v. (s, v) \<in> (edge_rel g)\<^sup>*}" for k
  proof (induction k)
    case 0
    show ?case by simp
  next
    case (Suc k)
    then show ?case
      by (auto simp: bfs_step_edge_rel intro: rtrancl_into_rtrancl)
  qed
  then show "plain_bfs g s \<subseteq> {v. (s, v) \<in> (edge_rel g)\<^sup>*}"
    by (simp add: plain_bfs_def bfs_levels_funpow)
next
  have s: "s \<in> plain_bfs g s" by (rule plain_bfs_self)
  have closed: "edge_rel g `` plain_bfs g s \<subseteq> plain_bfs g s"
    using plain_bfs_closed[OF assms] by (auto simp: bfs_step_edge_rel)
  have "(s, v) \<in> (edge_rel g)\<^sup>* \<Longrightarrow> v \<in> plain_bfs g s" for v
    by (induction rule: rtrancl_induct) (use s closed in auto)
  then show "{v. (s, v) \<in> (edge_rel g)\<^sup>*} \<subseteq> plain_bfs g s" by blast
qed

lemma is_connected_iff_reachable:
  assumes "wf_alt g" "g \<noteq> []"
  shows "is_connected g = Inr (\<forall>v \<in> set (nodes g). (hd (nodes g), v) \<in> (edge_rel g)\<^sup>*)"
proof -
  obtain n nbrs rest where g: "g = (n, nbrs) # rest" using assms(2) by (cases g) auto
  have n: "n \<in> set (nodes g)" "hd (nodes g) = n" by (simp_all add: g nodes_def)
  have sub: "plain_bfs g n \<subseteq> set (nodes g)"
    using funpow_bfs_step_nodes[OF assms(1), of "{n}" "length g"] n(1)
    by (simp add: plain_bfs_def bfs_levels_funpow)
  have "card (set (nodes g)) = length (nodes g)"
    by (rule distinct_card) (use assms(1) in \<open>simp add: wf_alt_def\<close>)
  then have c: "card (set (nodes g)) = length g" by (simp add: nodes_def)
  have "card (plain_bfs g n) = length g \<longleftrightarrow> plain_bfs g n = set (nodes g)"
    using card_subset_eq[OF _ sub] c by auto
  also have "\<dots> \<longleftrightarrow> (\<forall>v \<in> set (nodes g). (n, v) \<in> (edge_rel g)\<^sup>*)"
    using sub by (auto simp: plain_bfs_reachable[OF assms(1) n(1)])
  finally show ?thesis
    unfolding n(2) by (simp add: is_connected_def g)
qed

end
